theory Spec2Isabelle
  imports Main "HOL-Library.Char_ord" "HOL-Library.List_Lexorder" "HOL-Library.Option_ord"
    "HOL-Library.Product_Lexorder" "HOL-Library.Multiset"
begin

section \<open>Three-way merge of generated component files: the code merger\<close>

text \<open>
  A shallow embedding of \<^verbatim>\<open>@plasmicapp/code-merger/src/index.ts\<close>. Babel syntax trees
  are values of the datatype \<open>node\<close>; the classified tree of \<^verbatim>\<open>plasmic-ast\<close> is the
  datatype \<open>pnode\<close>; \<^verbatim>\<open>assert\<close> and \<^verbatim>\<open>ensure\<close> failures are values of \<open>error\<close>.
\<close>

subsection \<open>Syntax trees\<close>

datatype jsx_name = JSXIdentifier string | JSXNamespacedName string string

text \<open>A comment with its \<^verbatim>\<open>value\<close>, the text between the comment marks.\<close>

datatype Comment = Comment string

fun comment_value :: "Comment \<Rightarrow> string" where
  "comment_value (Comment v) = v"

text \<open>
  The node types the merger inspects have a constructor of their own; every other Babel
  node type is \<open>OtherExpression\<close> (the types of the alias \<^verbatim>\<open>Expression\<close>) or \<open>OtherNode\<close>
  (the rest), with its type tag and its child nodes. \<open>MemberExpression object property\<close>
  is the non-computed member access. \<open>AssignmentExpression leadingComments left right\<close>
  and \<open>ReturnStatement leadingComments argument\<close> carry their leading comments, which may
  hold the marker of the managed markup. A \<open>JSXElement\<close> carries
  its \<^verbatim>\<open>start\<close> offset, the name and the attributes of its opening element, its children
  and whether it has a closing element. The parser gives every element its offset,
  \<open>Some start\<close>; in a node made by \<^verbatim>\<open>babel.types.cloneDeep\<close> the field \<^verbatim>\<open>start\<close> is
  \<^verbatim>\<open>undefined\<close>, which is \<open>None\<close>.
\<close>

datatype node =
    Identifier string
  | StringLiteral string
  | BooleanLiteral bool
  | NullLiteral
  | MemberExpression node node
  | CallExpression node "node list"
  | LogicalExpression string node node
  | JSXText string
  | JSXExpressionContainer node
  | JSXAttribute jsx_name "node option"
  | JSXSpreadAttribute node
  | JSXElement "nat option" jsx_name "node list" "node list" bool
  | JSXFragment "node list"
  | AssignmentExpression "Comment list" node node
  | ReturnStatement "Comment list" "node option"
  | OtherExpression string "node list"
  | OtherNode string "node list"

subsection \<open>The classified tree (\<^verbatim>\<open>PlasmicASTNode\<close>)\<close>

datatype 'a pattr = PSpread string | PNamed string 'a

text \<open>
  \<open>TagOrComponent rawNode nameInId jsxRaw attrs children\<close> flattens a
  \<^verbatim>\<open>PlasmicTagOrComponent\<close> and its \<^verbatim>\<open>jsxElement\<close> view (\<open>jsxRaw\<close> is
  \<^verbatim>\<open>jsxElement.rawNode\<close>). \<open>Arg argName jsxNodes rawNode\<close>, \<open>StringLit value rawNode\<close> and
  \<open>TextNode value rawNode\<close> carry what the source's variants carry.
\<close>

datatype pnode =
    TagOrComponent node string node "pnode pattr list" "pnode list"
  | Arg string "pnode list" node
  | CondStrCall node
  | StringLit string node
  | TextNode string node
  | Opaque node

fun rawNode :: "pnode \<Rightarrow> node" where
  "rawNode (TagOrComponent r _ _ _ _) = r"
| "rawNode (Arg _ _ r) = r"
| "rawNode (CondStrCall r) = r"
| "rawNode (StringLit _ r) = r"
| "rawNode (TextNode _ r) = r"
| "rawNode (Opaque r) = r"

fun is_textual :: "pnode \<Rightarrow> bool" where
  "is_textual (StringLit _ _) = True"
| "is_textual (TextNode _ _) = True"
| "is_textual _ = False"

fun is_opaque :: "pnode \<Rightarrow> bool" where
  "is_opaque (Opaque _) = True"
| "is_opaque _ = False"

fun is_arg :: "pnode \<Rightarrow> bool" where
  "is_arg (Arg _ _ _) = True"
| "is_arg _ = False"

fun is_cond_str_call :: "pnode \<Rightarrow> bool" where
  "is_cond_str_call (CondStrCall _) = True"
| "is_cond_str_call _ = False"

fun is_tag_or_component :: "pnode \<Rightarrow> bool" where
  "is_tag_or_component (TagOrComponent _ _ _ _ _) = True"
| "is_tag_or_component _ = False"

text \<open>The \<^verbatim>\<open>type\<close> tag of a classified node.\<close>

datatype variant = VTag | VArg | VCondStrCall | VStringLit | VText | VOpaque

fun variant_of :: "pnode \<Rightarrow> variant" where
  "variant_of (TagOrComponent _ _ _ _ _) = VTag"
| "variant_of (Arg _ _ _) = VArg"
| "variant_of (CondStrCall _) = VCondStrCall"
| "variant_of (StringLit _ _) = VStringLit"
| "variant_of (TextNode _ _) = VText"
| "variant_of (Opaque _) = VOpaque"

text \<open>\<^verbatim>\<open>.value\<close> of a text or string literal, \<^verbatim>\<open>.argName\<close> of an argument and
  \<^verbatim>\<open>.jsxElement.nameInId\<close> of a tag; the empty string stands where the field is absent.\<close>

fun value_of :: "pnode \<Rightarrow> string" where
  "value_of (StringLit v _) = v"
| "value_of (TextNode v _) = v"
| "value_of _ = []"

fun argName :: "pnode \<Rightarrow> string" where
  "argName (Arg a _ _) = a"
| "argName _ = []"

fun nameInId :: "pnode \<Rightarrow> string" where
  "nameInId (TagOrComponent _ x _ _ _) = x"
| "nameInId _ = []"

subsection \<open>\<^verbatim>\<open>findMatch\<close>\<close>

datatype MatchResult = Perfect nat | TypeMatch nat | NoMatch

text \<open>
  The four \<^verbatim>\<open>for (let i = start; i < nodes.length; i++)\<close> loops of \<^verbatim>\<open>findMatch\<close> share one
  shape. \<open>inner\<close> is the guard of the branch that may return a perfect match (\<open>perfect\<close>)
  or record \<open>matchingTypeAt\<close>; \<open>outer\<close> says whether \<open>matchingTypeAt\<close> is recorded although
  the guard failed. The loop returns \<open>Inl i\<close> for \<^verbatim>\<open>return { type: "perfect", index: i }\<close>
  and \<open>Inr matchingTypeAt\<close> when it runs to the end.
\<close>

function findMatch_loop ::
  "(pnode \<Rightarrow> bool) \<Rightarrow> (pnode \<Rightarrow> bool) \<Rightarrow> bool \<Rightarrow> pnode list \<Rightarrow> nat \<Rightarrow> int \<Rightarrow> nat + int"
where
  "findMatch_loop inner perfect outer nodes i matchingTypeAt =
     (if i < length nodes then
        (let ni = nodes ! i in
         if inner ni then
           (if perfect ni then Inl i
            else findMatch_loop inner perfect outer nodes (i + 1)
                   (if matchingTypeAt = -1 then int i else matchingTypeAt))
         else findMatch_loop inner perfect outer nodes (i + 1)
                (if outer \<and> matchingTypeAt = -1 then int i else matchingTypeAt))
      else Inr matchingTypeAt)"
  by pat_completeness auto
termination
  by (relation "measure (\<lambda>(inner, perfect, outer, nodes, i, m). length nodes - i)") auto

declare findMatch_loop.simps [simp del]

definition findMatch_result :: "nat + int \<Rightarrow> MatchResult" where
  "findMatch_result r =
     (case r of
        Inl i \<Rightarrow> Perfect i
      | Inr matchingTypeAt \<Rightarrow>
          (if matchingTypeAt \<noteq> -1 then TypeMatch (nat matchingTypeAt) else NoMatch))"

text \<open>
  \<open>findMatch nodes start idMatchChecker n\<close>. In the text and the argument loops
  \<open>matchingTypeAt\<close> is set inside the test of \<^verbatim>\<open>ni.type\<close>; in the \<^verbatim>\<open>cond-str-call\<close> and the
  \<^verbatim>\<open>tag-or-component\<close> loops it is set after the test that returns, for every node that
  did not return. An opaque probe runs no loop.
\<close>

definition findMatch ::
  "pnode list \<Rightarrow> nat \<Rightarrow> (string \<Rightarrow> string \<Rightarrow> bool) \<Rightarrow> pnode \<Rightarrow> MatchResult"
where
  "findMatch nodes start idMatchChecker n =
     (if is_textual n then
        findMatch_result
          (findMatch_loop is_textual (\<lambda>ni. value_of ni = value_of n) False nodes start (-1))
      else if is_arg n then
        findMatch_result
          (findMatch_loop is_arg (\<lambda>ni. argName n = argName ni) False nodes start (-1))
      else if is_cond_str_call n then
        findMatch_result
          (findMatch_loop is_cond_str_call (\<lambda>ni. True) True nodes start (-1))
      else if is_tag_or_component n then
        findMatch_result
          (findMatch_loop
             (\<lambda>ni. is_tag_or_component ni \<and> idMatchChecker (nameInId ni) (nameInId n))
             (\<lambda>ni. True) True nodes start (-1))
      else NoMatch)"

text \<open>The first index at or after \<open>start\<close> whose node satisfies \<open>P\<close>.\<close>

definition first_index_from :: "(pnode \<Rightarrow> bool) \<Rightarrow> pnode list \<Rightarrow> nat \<Rightarrow> nat option" where
  "first_index_from P nodes start = find (\<lambda>j. P (nodes ! j)) [start..<length nodes]"

subsection \<open>Versions\<close>

text \<open>
  The class \<^verbatim>\<open>CodeVersion\<close> of \<^verbatim>\<open>plasmic-parser\<close> is not part of the sources at hand. The
  merger uses it through the methods below only, so a version is the record of these
  methods; \<open>'id\<close> is the type of what \<^verbatim>\<open>getId\<close> returns and \<^verbatim>\<open>findNode\<close> takes.
\<close>

record 'id CodeVersion =
  findNode :: "'id \<Rightarrow> pnode option"
  getId :: "pnode \<Rightarrow> 'id"
  getUuid :: "string \<Rightarrow> string"
  hasClassNameIdAttr :: "pnode \<Rightarrow> bool"
  hasPropsIdSpreador :: "pnode \<Rightarrow> bool"
  hasShowFuncCall :: "pnode \<Rightarrow> bool"
  root :: pnode

text \<open>The callback \<^verbatim>\<open>idMatchChecker\<close> that \<^verbatim>\<open>mergedChildren\<close> passes to \<^verbatim>\<open>findMatch\<close>:
  \<open>otherVersion\<close> is the version of the list searched, the probe is of the edited version.\<close>

definition idMatch :: "'id CodeVersion \<Rightarrow> 'id CodeVersion \<Rightarrow> string \<Rightarrow> string \<Rightarrow> bool" where
  "idMatch otherVersion editedVersion otherNameInId editedNameInId =
     (otherNameInId = editedNameInId
      \<or> getUuid editedVersion editedNameInId = getUuid otherVersion otherNameInId)"

subsection \<open>\<^verbatim>\<open>mergedChildren\<close>: the loop over the edited children\<close>

text \<open>
  \<^verbatim>\<open>merged\<close> starts as a copy of the new node's children and receives children of the
  edited node. The last step of \<^verbatim>\<open>mergedChildren\<close> asks \<^verbatim>\<open>newChildren.includes(c)\<close>, an
  identity test on objects; the trees of the versions come from separate parses, so an
  object of the edited tree is never an element of \<^verbatim>\<open>newChildren\<close>. The model keeps the
  answer with each element: its origin.
\<close>

datatype origin = FromNew | FromEdited

record children_state =
  merged :: "(origin \<times> pnode) list"
  nextInsertStartAt :: nat

text \<open>\<^verbatim>\<open>xs.splice(k, 0, x)\<close>; an index beyond the end inserts at the end.\<close>

definition splice_in :: "nat \<Rightarrow> 'a \<Rightarrow> 'a list \<Rightarrow> 'a list" where
  "splice_in k x xs = take k xs @ x # drop k xs"

definition insertEditedNodeIntoNew ::
  "'id CodeVersion \<Rightarrow> 'id CodeVersion \<Rightarrow> pnode \<Rightarrow> pnode option \<Rightarrow> children_state
     \<Rightarrow> children_state"
where
  "insertEditedNodeIntoNew newVersion editedVersion editedChild prevEditedChild st =
     (case prevEditedChild of
        None \<Rightarrow>
          \<lparr>merged = splice_in 0 (FromEdited, editedChild) (merged st), nextInsertStartAt = 1\<rparr>
      | Some prev \<Rightarrow>
          (case findMatch (map snd (merged st)) (nextInsertStartAt st)
                  (idMatch newVersion editedVersion) prev of
             Perfect index \<Rightarrow>
               \<lparr>merged = splice_in (index + 1) (FromEdited, editedChild) (merged st),
                nextInsertStartAt = index + 2\<rparr>
           | TypeMatch index \<Rightarrow>
               \<lparr>merged = splice_in (index + 1) (FromEdited, editedChild) (merged st),
                nextInsertStartAt = index + 2\<rparr>
           | NoMatch \<Rightarrow>
               \<lparr>merged = splice_in (nextInsertStartAt st) (FromEdited, editedChild) (merged st),
                nextInsertStartAt = nextInsertStartAt st + 1\<rparr>))"

text \<open>The body of \<^verbatim>\<open>editedChildren.forEach((editedChild, i) => ...)\<close>; \<open>prev\<close> is
  \<^verbatim>\<open>editedChildren[i - 1]\<close>, absent for the first child.\<close>

definition children_step ::
  "'id CodeVersion \<Rightarrow> 'id CodeVersion \<Rightarrow> 'id CodeVersion \<Rightarrow> pnode list \<Rightarrow> pnode
     \<Rightarrow> pnode option \<Rightarrow> children_state \<Rightarrow> children_state"
where
  "children_step newVersion editedVersion baseVersion baseChildren editedChild prev st =
     (if is_textual editedChild then
        (case findMatch (map snd (merged st)) (nextInsertStartAt st)
                (idMatch newVersion editedVersion) editedChild of
           Perfect index \<Rightarrow> st\<lparr>nextInsertStartAt := index + 1\<rparr>
         | _ \<Rightarrow>
           (case findMatch baseChildren 0 (idMatch baseVersion editedVersion) editedChild of
              Perfect _ \<Rightarrow> st
            | _ \<Rightarrow> insertEditedNodeIntoNew newVersion editedVersion editedChild prev st))
      else if is_opaque editedChild then
        insertEditedNodeIntoNew newVersion editedVersion editedChild prev st
      else st)"

fun children_loop ::
  "'id CodeVersion \<Rightarrow> 'id CodeVersion \<Rightarrow> 'id CodeVersion \<Rightarrow> pnode list \<Rightarrow> pnode option
     \<Rightarrow> pnode list \<Rightarrow> children_state \<Rightarrow> children_state"
where
  "children_loop newVersion editedVersion baseVersion baseChildren prev [] st = st"
| "children_loop newVersion editedVersion baseVersion baseChildren prev (editedChild # rest) st =
     children_loop newVersion editedVersion baseVersion baseChildren (Some editedChild) rest
       (children_step newVersion editedVersion baseVersion baseChildren editedChild prev st)"

text \<open>The list \<^verbatim>\<open>merged\<close> when the loop is over.\<close>

definition merged_list ::
  "'id CodeVersion \<Rightarrow> 'id CodeVersion \<Rightarrow> 'id CodeVersion \<Rightarrow> pnode list \<Rightarrow> pnode list
     \<Rightarrow> pnode list \<Rightarrow> (origin \<times> pnode) list"
where
  "merged_list newVersion editedVersion baseVersion newChildren editedChildren baseChildren =
     merged (children_loop newVersion editedVersion baseVersion baseChildren None editedChildren
       \<lparr>merged = map (Pair FromNew) newChildren, nextInsertStartAt = 0\<rparr>)"

subsection \<open>Helpers of the merger that live in other modules\<close>

datatype error = AssertFailed | EnsureFailed | TypeError | SyntaxError | Rejected

text \<open>\<^verbatim>\<open>assert(c)\<close> and \<^verbatim>\<open>ensure(x)\<close> of \<^verbatim>\<open>./common\<close>: they throw on a false condition and
  on an absent value. \<open>TypeError\<close> is the failure of a property access that the types of the
  source exclude, \<open>SyntaxError\<close> a failure of the parser and \<open>Rejected\<close> a promise that is
  rejected.\<close>

definition ensure :: "'a option \<Rightarrow> error + 'a" where
  "ensure x = (case x of None \<Rightarrow> Inl EnsureFailed | Some v \<Rightarrow> Inr v)"

text \<open>Sequencing of steps that may throw.\<close>

definition bind_err :: "error + 'a \<Rightarrow> ('a \<Rightarrow> error + 'b) \<Rightarrow> error + 'b" where
  "bind_err m f = (case m of Inl e \<Rightarrow> Inl e | Inr v \<Rightarrow> f v)"

text \<open>\<^verbatim>\<open>name.startsWith("on")\<close>.\<close>

definition startsWith :: "string \<Rightarrow> string \<Rightarrow> bool" where
  "startsWith s p = (take (length p) s = p)"

text \<open>Modelled from the spec: the constant \<^verbatim>\<open>helperObject\<close> of \<^verbatim>\<open>plasmic-parser\<close> is missing
  from the sources; the spec names the helper object \<^verbatim>\<open>rh\<close>.\<close>

definition helperObject :: string where
  "helperObject = ''rh''"

text \<open>Modelled from the spec: \<^verbatim>\<open>memberExpressionMatch\<close> of \<^verbatim>\<open>plasmic-parser\<close> is missing; the
  spec reads it as the test for the member reference \<^verbatim>\<open>obj.name\<close>.\<close>

fun memberExpressionMatch :: "node \<Rightarrow> string \<Rightarrow> string \<Rightarrow> bool" where
  "memberExpressionMatch (MemberExpression (Identifier ob) (Identifier p)) obj name =
     (ob = obj \<and> p = name)"
| "memberExpressionMatch _ obj name = False"

text \<open>Modelled from the spec: \<^verbatim>\<open>calleeMatch\<close> of \<^verbatim>\<open>plasmic-parser\<close> is missing; the spec
  reads it as the test that a callee is the member reference \<^verbatim>\<open>obj.name\<close>.\<close>

definition calleeMatch :: "node \<Rightarrow> string \<Rightarrow> string \<Rightarrow> bool" where
  "calleeMatch callee obj name = memberExpressionMatch callee obj name"

text \<open>Modelled from the spec: \<^verbatim>\<open>makeMemberExpression\<close> of \<^verbatim>\<open>plasmic-parser\<close> is missing; it
  builds the member reference \<^verbatim>\<open>obj.name\<close>.\<close>

definition makeMemberExpression :: "string \<Rightarrow> string \<Rightarrow> node" where
  "makeMemberExpression obj name = MemberExpression (Identifier obj) (Identifier name)"

text \<open>Modelled from the spec: \<^verbatim>\<open>makeCallExpression\<close> of \<^verbatim>\<open>plasmic-ast\<close> is missing; it builds
  the call \<^verbatim>\<open>obj.name()\<close> without arguments.\<close>

definition makeCallExpression :: "string \<Rightarrow> string \<Rightarrow> node" where
  "makeCallExpression obj name = CallExpression (makeMemberExpression obj name) []"

text \<open>Modelled from the spec: \<^verbatim>\<open>wrapInJsxExprContainer\<close> of \<^verbatim>\<open>plasmic-ast\<close> is missing; it
  wraps an expression in a JSX expression container.\<close>

definition wrapInJsxExprContainer :: "node \<Rightarrow> node" where
  "wrapInJsxExprContainer e = JSXExpressionContainer e"

text \<open>Modelled from the spec: \<^verbatim>\<open>cloneDeepWithHook\<close> of \<^verbatim>\<open>./cloneDeepWithHook\<close> is missing; the
  spec describes it: deep clone this subtree, but if the hook returns a replacement for
  a node, use that replacement and do not descend into it.\<close>

definition with_hook :: "(node \<Rightarrow> node option) \<Rightarrow> node \<Rightarrow> node \<Rightarrow> node" where
  "with_hook hook n cloned = (case hook n of Some replacement \<Rightarrow> replacement | None \<Rightarrow> cloned)"

fun cloneDeepWithHook :: "node \<Rightarrow> (node \<Rightarrow> node option) \<Rightarrow> node" where
  "cloneDeepWithHook (Identifier x) hook = with_hook hook (Identifier x) (Identifier x)"
| "cloneDeepWithHook (StringLiteral x) hook = with_hook hook (StringLiteral x) (StringLiteral x)"
| "cloneDeepWithHook (BooleanLiteral b) hook =
     with_hook hook (BooleanLiteral b) (BooleanLiteral b)"
| "cloneDeepWithHook NullLiteral hook = with_hook hook NullLiteral NullLiteral"
| "cloneDeepWithHook (MemberExpression ob pr) hook =
     with_hook hook (MemberExpression ob pr)
       (MemberExpression (cloneDeepWithHook ob hook) (cloneDeepWithHook pr hook))"
| "cloneDeepWithHook (CallExpression callee args) hook =
     with_hook hook (CallExpression callee args)
       (CallExpression (cloneDeepWithHook callee hook)
          (map (\<lambda>a. cloneDeepWithHook a hook) args))"
| "cloneDeepWithHook (LogicalExpression oper l r) hook =
     with_hook hook (LogicalExpression oper l r)
       (LogicalExpression oper (cloneDeepWithHook l hook) (cloneDeepWithHook r hook))"
| "cloneDeepWithHook (JSXText x) hook = with_hook hook (JSXText x) (JSXText x)"
| "cloneDeepWithHook (JSXExpressionContainer e) hook =
     with_hook hook (JSXExpressionContainer e)
       (JSXExpressionContainer (cloneDeepWithHook e hook))"
| "cloneDeepWithHook (JSXAttribute nm v) hook =
     with_hook hook (JSXAttribute nm v)
       (JSXAttribute nm (map_option (\<lambda>a. cloneDeepWithHook a hook) v))"
| "cloneDeepWithHook (JSXSpreadAttribute e) hook =
     with_hook hook (JSXSpreadAttribute e) (JSXSpreadAttribute (cloneDeepWithHook e hook))"
| "cloneDeepWithHook (JSXElement start nm attributes children closing) hook =
     with_hook hook (JSXElement start nm attributes children closing)
       (JSXElement start nm (map (\<lambda>a. cloneDeepWithHook a hook) attributes)
          (map (\<lambda>c. cloneDeepWithHook c hook) children) closing)"
| "cloneDeepWithHook (JSXFragment children) hook =
     with_hook hook (JSXFragment children)
       (JSXFragment (map (\<lambda>c. cloneDeepWithHook c hook) children))"
| "cloneDeepWithHook (AssignmentExpression cs l r) hook =
     with_hook hook (AssignmentExpression cs l r)
       (AssignmentExpression cs (cloneDeepWithHook l hook) (cloneDeepWithHook r hook))"
| "cloneDeepWithHook (ReturnStatement cs a) hook =
     with_hook hook (ReturnStatement cs a)
       (ReturnStatement cs (map_option (\<lambda>e. cloneDeepWithHook e hook) a))"
| "cloneDeepWithHook (OtherExpression tag ns) hook =
     with_hook hook (OtherExpression tag ns)
       (OtherExpression tag (map (\<lambda>c. cloneDeepWithHook c hook) ns))"
| "cloneDeepWithHook (OtherNode tag ns) hook =
     with_hook hook (OtherNode tag ns)
       (OtherNode tag (map (\<lambda>c. cloneDeepWithHook c hook) ns))"

text \<open>Modelled from the spec: \<^verbatim>\<open>nodesDeepEqualIgnoreComments\<close> of \<^verbatim>\<open>./utils\<close> is missing; the
  spec describes it as deep equality ignoring comments. Nodes of the model carry no
  comments but the leading comments of assignments and return statements, which are not
  compared; nor are the \<^verbatim>\<open>start\<close> offsets, which differ between two files.\<close>

fun erase_start :: "node \<Rightarrow> node" where
  "erase_start (MemberExpression ob pr) = MemberExpression (erase_start ob) (erase_start pr)"
| "erase_start (CallExpression callee args) =
     CallExpression (erase_start callee) (map erase_start args)"
| "erase_start (LogicalExpression oper l r) =
     LogicalExpression oper (erase_start l) (erase_start r)"
| "erase_start (JSXExpressionContainer e) = JSXExpressionContainer (erase_start e)"
| "erase_start (JSXAttribute nm v) = JSXAttribute nm (map_option erase_start v)"
| "erase_start (JSXSpreadAttribute e) = JSXSpreadAttribute (erase_start e)"
| "erase_start (JSXElement start nm attributes children closing) =
     JSXElement None nm (map erase_start attributes) (map erase_start children) closing"
| "erase_start (JSXFragment children) = JSXFragment (map erase_start children)"
| "erase_start (AssignmentExpression cs l r) =
     AssignmentExpression [] (erase_start l) (erase_start r)"
| "erase_start (ReturnStatement cs a) = ReturnStatement [] (map_option erase_start a)"
| "erase_start (OtherExpression tag ns) = OtherExpression tag (map erase_start ns)"
| "erase_start (OtherNode tag ns) = OtherNode tag (map erase_start ns)"
| "erase_start n = n"

definition nodesDeepEqualIgnoreComments :: "node \<Rightarrow> node \<Rightarrow> bool" where
  "nodesDeepEqualIgnoreComments a b = (erase_start a = erase_start b)"

subsection \<open>\<^verbatim>\<open>mergeAttributes\<close>\<close>

text \<open>Accessors of a tag and its \<^verbatim>\<open>jsxElement\<close>; the types of the source exclude the other
  variants, where the accessors return an empty value.\<close>

fun jsxRaw :: "pnode \<Rightarrow> node" where
  "jsxRaw (TagOrComponent _ _ j _ _) = j"
| "jsxRaw n = rawNode n"

fun attrs_of :: "pnode \<Rightarrow> pnode pattr list" where
  "attrs_of (TagOrComponent _ _ _ attrs _) = attrs"
| "attrs_of _ = []"

fun children_of :: "pnode \<Rightarrow> pnode list" where
  "children_of (TagOrComponent _ _ _ _ children) = children"
| "children_of _ = []"

text \<open>\<^verbatim>\<open>openingElement.attributes\<close> and \<^verbatim>\<open>children\<close> of a \<^verbatim>\<open>JSXElement\<close>.\<close>

fun jsx_attributes :: "node \<Rightarrow> node list" where
  "jsx_attributes (JSXElement _ _ attributes _ _) = attributes"
| "jsx_attributes _ = []"

fun is_container :: "node \<Rightarrow> bool" where
  "is_container (JSXExpressionContainer _) = True"
| "is_container _ = False"

text \<open>A JavaScript \<^verbatim>\<open>Map\<close> keeps its keys in the order of their first insertion:
  \<^verbatim>\<open>set\<close> on a key that is present replaces the value in place.\<close>

fun map_set :: "'k \<Rightarrow> 'v \<Rightarrow> ('k \<times> 'v) list \<Rightarrow> ('k \<times> 'v) list" where
  "map_set k v [] = [(k, v)]"
| "map_set k v ((k', v') # m) = (if k' = k then (k, v) # m else (k', v') # map_set k v m)"

text \<open>\<^verbatim>\<open>getNamedAttrs\<close>: spread attributes are passed over; a namespaced attribute name
  fails the assertion \<^verbatim>\<open>L.isString(attr.name.name)\<close>.\<close>

fun getNamedAttrs_loop :: "node list \<Rightarrow> (string \<times> node) list \<Rightarrow> error + (string \<times> node) list"
where
  "getNamedAttrs_loop [] attrs = Inr attrs"
| "getNamedAttrs_loop (JSXAttribute (JSXIdentifier name) v # rest) attrs =
     getNamedAttrs_loop rest (map_set name (JSXAttribute (JSXIdentifier name) v) attrs)"
| "getNamedAttrs_loop (JSXAttribute (JSXNamespacedName ns name) v # rest) attrs =
     Inl AssertFailed"
| "getNamedAttrs_loop (_ # rest) attrs = getNamedAttrs_loop rest attrs"

definition getNamedAttrs :: "node \<Rightarrow> error + (string \<times> node) list" where
  "getNamedAttrs jsxElement = getNamedAttrs_loop (jsx_attributes jsxElement) []"

fun findAttrValueNode :: "string \<Rightarrow> 'a pattr list \<Rightarrow> 'a option" where
  "findAttrValueNode name [] = None"
| "findAttrValueNode name (PSpread _ # attrs) = findAttrValueNode name attrs"
| "findAttrValueNode name (PNamed n v # attrs) =
     (if n = name then Some v else findAttrValueNode name attrs)"

datatype resolution = EmitEdited | EmitBoth | EmitNew

definition conflictResolution :: "string \<Rightarrow> node option \<Rightarrow> node \<Rightarrow> node \<Rightarrow> resolution" where
  "conflictResolution name baseAttr editedAttr newAttr =
     (if nodesDeepEqualIgnoreComments editedAttr newAttr then EmitEdited
      else case baseAttr of
        None \<Rightarrow> EmitBoth
      | Some b \<Rightarrow>
          if nodesDeepEqualIgnoreComments b editedAttr then EmitNew
          else if startsWith name ''on'' \<or> nodesDeepEqualIgnoreComments b newAttr
               then EmitEdited
          else EmitBoth)"

text \<open>
  The merger is recursive: \<^verbatim>\<open>mergeAttributes\<close> and \<^verbatim>\<open>mergedChildren\<close> serialize attribute
  values and children of the new node. Their model takes these results as a table
  from the sub-nodes of the new node to the result of \<^verbatim>\<open>serializePlasmicASTNode\<close> on them;
  the recursive function at the end builds the table.
\<close>

type_synonym ser_result = "error + node option"
type_synonym ser_table = "(pnode \<times> ser_result) list"

definition lookup_ser :: "ser_table \<Rightarrow> pnode \<Rightarrow> ser_result" where
  "lookup_ser tbl n = (case map_of tbl n of Some r \<Rightarrow> r | None \<Rightarrow> Inl TypeError)"

fun attr_name :: "node \<Rightarrow> jsx_name" where
  "attr_name (JSXAttribute nm _) = nm"
| "attr_name _ = JSXIdentifier []"

text \<open>The body of \<^verbatim>\<open>newNamedAttrs.forEach((attr, name) => ...)\<close> in
  \<^verbatim>\<open>newAttrsBeforeIdNode\<close>.\<close>

definition newAttrs_step ::
  "ser_table \<Rightarrow> pnode \<Rightarrow> (string \<times> node) list \<Rightarrow> (string \<times> node) list \<Rightarrow> string \<times> node
     \<Rightarrow> node list \<Rightarrow> error + node list"
where
  "newAttrs_step tbl newNode editedNamedAttrs baseNamedAttrs entry newAttrs =
     (case entry of (name, attr) \<Rightarrow>
        if name = ''className'' then Inr newAttrs
        else case map_of editedNamedAttrs name of
          Some editedAttr \<Rightarrow>
            (let res = conflictResolution name (map_of baseNamedAttrs name) editedAttr attr
             in if res = EmitBoth \<or> res = EmitNew then Inr (newAttrs @ [attr])
                else Inr newAttrs)
        | None \<Rightarrow>
            (case map_of baseNamedAttrs name of
               None \<Rightarrow>
                 bind_err (ensure (findAttrValueNode name (attrs_of newNode)))
                   (\<lambda>attrValueNode.
                      if \<not> is_container (rawNode attrValueNode) then Inl AssertFailed
                      else bind_err (lookup_ser tbl attrValueNode) (\<lambda>r.
                           bind_err (ensure r) (\<lambda>mergedNewValue.
                             if \<not> is_container mergedNewValue then Inl AssertFailed
                             else Inr (newAttrs
                                    @ [JSXAttribute (attr_name attr) (Some mergedNewValue)]))))
             | Some _ \<Rightarrow> Inr newAttrs))"

fun newAttrs_loop ::
  "ser_table \<Rightarrow> pnode \<Rightarrow> (string \<times> node) list \<Rightarrow> (string \<times> node) list
     \<Rightarrow> (string \<times> node) list \<Rightarrow> node list \<Rightarrow> error + node list"
where
  "newAttrs_loop tbl newNode editedNamedAttrs baseNamedAttrs [] newAttrs = Inr newAttrs"
| "newAttrs_loop tbl newNode editedNamedAttrs baseNamedAttrs (entry # rest) newAttrs =
     bind_err (newAttrs_step tbl newNode editedNamedAttrs baseNamedAttrs entry newAttrs)
       (newAttrs_loop tbl newNode editedNamedAttrs baseNamedAttrs rest)"

definition newAttrsBeforeIdNode ::
  "ser_table \<Rightarrow> pnode \<Rightarrow> (string \<times> node) list \<Rightarrow> (string \<times> node) list
     \<Rightarrow> (string \<times> node) list \<Rightarrow> error + node list"
where
  "newAttrsBeforeIdNode tbl newNode newNamedAttrs editedNamedAttrs baseNamedAttrs =
     newAttrs_loop tbl newNode editedNamedAttrs baseNamedAttrs newNamedAttrs []"

text \<open>The hook of \<^verbatim>\<open>emitAttrInEditedNode\<close> that renames the event handler of attribute
  \<open>name\<close>, and the function itself. \<open>None\<close> is \<^verbatim>\<open>undefined\<close>.\<close>

definition renameHandlerHook :: "string \<Rightarrow> string \<Rightarrow> string \<Rightarrow> node \<Rightarrow> node option" where
  "renameHandlerHook editedNodeId newNodeId eventNameInId n =
     (if memberExpressionMatch n helperObject (''on'' @ editedNodeId @ eventNameInId)
      then Some (makeMemberExpression helperObject (''on'' @ newNodeId @ eventNameInId))
      else None)"

definition emitAttrInEditedNode ::
  "string \<Rightarrow> string \<Rightarrow> (string \<times> node) list \<Rightarrow> (string \<times> node) list \<Rightarrow> string \<Rightarrow> node
     \<Rightarrow> node option"
where
  "emitAttrInEditedNode editedNodeId newNodeId newNamedAttrs baseNamedAttrs name editedAttr =
     (case map_of newNamedAttrs name of
        Some newAttr \<Rightarrow>
          (let res = conflictResolution name (map_of baseNamedAttrs name) editedAttr newAttr
           in if \<not> (res = EmitBoth \<or> res = EmitEdited) then None
              else if startsWith name ''on'' \<and> editedNodeId \<noteq> newNodeId then
                (let eventNameInId = drop 2 name
                 in Some (cloneDeepWithHook editedAttr
                            (renameHandlerHook editedNodeId newNodeId eventNameInId)))
              else Some editedAttr)
      | None \<Rightarrow>
          (case map_of baseNamedAttrs name of
             None \<Rightarrow> Some editedAttr
           | Some _ \<Rightarrow> None))"

text \<open>The attribute \<^verbatim>\<open>className={rh.cls<nodeId>()}\<close> that the loop builds.\<close>

definition classNameAttr :: "string \<Rightarrow> node" where
  "classNameAttr nodeId =
     JSXAttribute (JSXIdentifier ''className'')
       (Some (JSXExpressionContainer (makeCallExpression helperObject (''cls'' @ nodeId))))"

fun jsx_local_name :: "jsx_name \<Rightarrow> string" where
  "jsx_local_name (JSXIdentifier x) = x"
| "jsx_local_name (JSXNamespacedName ns x) = x"

text \<open>The callee of \<^verbatim>\<open>attr.value.expression\<close> when the value is an expression container
  that holds a call.\<close>

fun containerCallee :: "node option \<Rightarrow> node option" where
  "containerCallee (Some (JSXExpressionContainer (CallExpression callee args))) = Some callee"
| "containerCallee _ = None"

fun is_member :: "node \<Rightarrow> bool" where
  "is_member (MemberExpression _ _) = True"
| "is_member _ = False"

text \<open>
  The body of the loop over the attributes of the edited element: the attributes it
  pushes to \<^verbatim>\<open>mergedAttrs\<close>. For the managed spread the source clones the attribute with a
  hook that replaces the object \<^verbatim>\<open>arg.callee\<close> by a copy whose property is renamed; as a
  value that is the same spread with the property of the callee renamed.
\<close>

definition edited_attr_step ::
  "string \<Rightarrow> string \<Rightarrow> bool \<Rightarrow> (string \<times> node) list \<Rightarrow> (string \<times> node) list \<Rightarrow> node
     \<Rightarrow> error + node list"
where
  "edited_attr_step editedNodeId newNodeId newNodeHasPropsWithIdSpreador newNamedAttrs
      baseNamedAttrs attrInEditedNode =
     (case attrInEditedNode of
        JSXSpreadAttribute arg \<Rightarrow>
          (case arg of
             CallExpression callee arguments \<Rightarrow>
               if calleeMatch callee helperObject (''props'' @ editedNodeId) then
                 (case callee of
                    MemberExpression ob pr \<Rightarrow>
                      if newNodeHasPropsWithIdSpreador then
                        Inr [JSXSpreadAttribute
                               (CallExpression
                                  (MemberExpression ob (Identifier (''props'' @ newNodeId)))
                                  arguments)]
                      else if arguments = [] then Inr [classNameAttr newNodeId]
                      else Inr [classNameAttr newNodeId, attrInEditedNode]
                  | _ \<Rightarrow> Inl AssertFailed)
               else Inr [attrInEditedNode]
           | _ \<Rightarrow> Inr [attrInEditedNode])
      | JSXAttribute nm v \<Rightarrow>
          (let attrName = jsx_local_name nm;
               emitted =
                 (case emitAttrInEditedNode editedNodeId newNodeId newNamedAttrs
                         baseNamedAttrs attrName attrInEditedNode of
                    Some toEmit \<Rightarrow> Inr [toEmit]
                  | None \<Rightarrow> Inr [])
           in case (if attrName = ''className'' then containerCallee v else None) of
                Some callee \<Rightarrow>
                  if calleeMatch callee helperObject (''cls'' @ editedNodeId) then
                    (if \<not> is_member callee then Inl AssertFailed
                     else if newNodeHasPropsWithIdSpreador then
                       Inr [JSXSpreadAttribute
                              (makeCallExpression helperObject (''props'' @ newNodeId))]
                     else Inr [classNameAttr newNodeId])
                  else emitted
              | None \<Rightarrow> emitted)
      | _ \<Rightarrow> Inl TypeError)"

fun edited_attrs_loop ::
  "string \<Rightarrow> string \<Rightarrow> bool \<Rightarrow> (string \<times> node) list \<Rightarrow> (string \<times> node) list \<Rightarrow> node list
     \<Rightarrow> node list \<Rightarrow> error + node list"
where
  "edited_attrs_loop editedNodeId newNodeId hasProps newNamedAttrs baseNamedAttrs []
      mergedAttrs = Inr mergedAttrs"
| "edited_attrs_loop editedNodeId newNodeId hasProps newNamedAttrs baseNamedAttrs
      (attrInEditedNode # rest) mergedAttrs =
     bind_err
       (edited_attr_step editedNodeId newNodeId hasProps newNamedAttrs baseNamedAttrs
          attrInEditedNode)
       (\<lambda>pushed. edited_attrs_loop editedNodeId newNodeId hasProps newNamedAttrs
                    baseNamedAttrs rest (mergedAttrs @ pushed))"

text \<open>\<^verbatim>\<open>mergeAttributes\<close>. Of the three versions the function reads the new one only;
  \<open>tbl\<close> stands for its recursive calls of the serializer.\<close>

definition mergeAttributes ::
  "ser_table \<Rightarrow> pnode \<Rightarrow> pnode \<Rightarrow> pnode \<Rightarrow> 'id CodeVersion \<Rightarrow> error + node list"
where
  "mergeAttributes tbl newNode editedNode baseNode newVersion =
     (let editedNodeId = nameInId editedNode;
          newNodeId = nameInId newNode;
          newNodeHasClassNameAttr = hasClassNameIdAttr newVersion newNode;
          newNodeHasPropsWithIdSpreador = hasPropsIdSpreador newVersion newNode
      in if \<not> (newNodeHasPropsWithIdSpreador \<noteq> newNodeHasClassNameAttr) then Inl AssertFailed
         else
           bind_err (getNamedAttrs (jsxRaw newNode)) (\<lambda>newNamedAttrs.
           bind_err (getNamedAttrs (jsxRaw editedNode)) (\<lambda>editedNamedAttrs.
           bind_err (getNamedAttrs (jsxRaw baseNode)) (\<lambda>baseNamedAttrs.
           bind_err (newAttrsBeforeIdNode tbl newNode newNamedAttrs editedNamedAttrs
                       baseNamedAttrs) (\<lambda>mergedAttrs.
             edited_attrs_loop editedNodeId newNodeId newNodeHasPropsWithIdSpreador
               newNamedAttrs baseNamedAttrs (jsx_attributes (jsxRaw editedNode))
               mergedAttrs)))))"

subsection \<open>The last step of \<^verbatim>\<open>mergedChildren\<close>\<close>

text \<open>\<^verbatim>\<open>babel.types.isExpression\<close>: the node types of the alias \<^verbatim>\<open>Expression\<close>.\<close>

fun isExpression :: "node \<Rightarrow> bool" where
  "isExpression (JSXText _) = False"
| "isExpression (JSXExpressionContainer _) = False"
| "isExpression (JSXAttribute _ _) = False"
| "isExpression (JSXSpreadAttribute _) = False"
| "isExpression (ReturnStatement _ _) = False"
| "isExpression (OtherNode _ _) = False"
| "isExpression _ = True"

fun is_jsx_element :: "node \<Rightarrow> bool" where
  "is_jsx_element (JSXElement _ _ _ _ _) = True"
| "is_jsx_element _ = False"

fun is_jsx_fragment :: "node \<Rightarrow> bool" where
  "is_jsx_fragment (JSXFragment _) = True"
| "is_jsx_fragment _ = False"

text \<open>The callback of \<^verbatim>\<open>merged.map(c => ...)\<close>; \<open>None\<close> is \<^verbatim>\<open>undefined\<close>.\<close>

definition child_output :: "ser_table \<Rightarrow> origin \<times> pnode \<Rightarrow> ser_result" where
  "child_output tbl oc =
     (case oc of (org, c) \<Rightarrow>
        if org = FromEdited then Inr (Some (rawNode c))
        else if is_opaque c then Inr (Some (rawNode c))
        else bind_err (lookup_ser tbl c) (\<lambda>r.
          case r of
            None \<Rightarrow> Inr None
          | Some n \<Rightarrow>
              if isExpression n then
                Inr (Some (if \<not> is_jsx_element n \<and> \<not> is_jsx_fragment n
                           then JSXExpressionContainer n else n))
              else Inr (Some n)))"

text \<open>\<^verbatim>\<open>withoutNils(xs.map(f))\<close> where \<open>f\<close> may throw: the calls run in order, the first
  failure ends the run, and the absent results are dropped.\<close>

fun withoutNils_map :: "('a \<Rightarrow> error + 'b option) \<Rightarrow> 'a list \<Rightarrow> error + 'b list" where
  "withoutNils_map f [] = Inr []"
| "withoutNils_map f (x # xs) =
     bind_err (f x) (\<lambda>r.
     bind_err (withoutNils_map f xs) (\<lambda>rs.
       Inr (case r of None \<Rightarrow> rs | Some v \<Rightarrow> v # rs)))"

definition mergedChildren ::
  "ser_table \<Rightarrow> pnode \<Rightarrow> pnode \<Rightarrow> pnode \<Rightarrow> 'id CodeVersion \<Rightarrow> 'id CodeVersion
     \<Rightarrow> 'id CodeVersion \<Rightarrow> error + node list"
where
  "mergedChildren tbl newNode editedNode baseNode newVersion editedVersion baseVersion =
     withoutNils_map (child_output tbl)
       (merged_list newVersion editedVersion baseVersion (children_of newNode)
          (children_of editedNode) (children_of baseNode))"

subsection \<open>Traversals\<close>

text \<open>The child nodes of a node in the order in which \<^verbatim>\<open>traverse\<close> of \<^verbatim>\<open>@babel/traverse\<close>
  visits them, and the node with its child nodes replaced.\<close>

fun sub_nodes :: "node \<Rightarrow> node list" where
  "sub_nodes (MemberExpression ob pr) = [ob, pr]"
| "sub_nodes (CallExpression callee args) = callee # args"
| "sub_nodes (LogicalExpression oper l r) = [l, r]"
| "sub_nodes (JSXExpressionContainer e) = [e]"
| "sub_nodes (JSXAttribute nm v) = (case v of None \<Rightarrow> [] | Some e \<Rightarrow> [e])"
| "sub_nodes (JSXSpreadAttribute e) = [e]"
| "sub_nodes (JSXElement start nm attributes children closing) = attributes @ children"
| "sub_nodes (JSXFragment children) = children"
| "sub_nodes (AssignmentExpression cs l r) = [l, r]"
| "sub_nodes (ReturnStatement cs a) = (case a of None \<Rightarrow> [] | Some e \<Rightarrow> [e])"
| "sub_nodes (OtherExpression tag ns) = ns"
| "sub_nodes (OtherNode tag ns) = ns"
| "sub_nodes _ = []"

fun with_sub_nodes :: "node \<Rightarrow> node list \<Rightarrow> node" where
  "with_sub_nodes (MemberExpression _ _) [ob, pr] = MemberExpression ob pr"
| "with_sub_nodes (CallExpression _ _) (callee # args) = CallExpression callee args"
| "with_sub_nodes (LogicalExpression oper _ _) [l, r] = LogicalExpression oper l r"
| "with_sub_nodes (JSXExpressionContainer _) [e] = JSXExpressionContainer e"
| "with_sub_nodes (JSXAttribute nm (Some _)) [e] = JSXAttribute nm (Some e)"
| "with_sub_nodes (JSXSpreadAttribute _) [e] = JSXSpreadAttribute e"
| "with_sub_nodes (JSXElement start nm attributes children closing) ns =
     JSXElement start nm (take (length attributes) ns) (drop (length attributes) ns) closing"
| "with_sub_nodes (JSXFragment _) ns = JSXFragment ns"
| "with_sub_nodes (AssignmentExpression cs _ _) [l, r] = AssignmentExpression cs l r"
| "with_sub_nodes (ReturnStatement cs (Some _)) [e] = ReturnStatement cs (Some e)"
| "with_sub_nodes (OtherExpression tag _) ns = OtherExpression tag ns"
| "with_sub_nodes (OtherNode tag _) ns = OtherNode tag ns"
| "with_sub_nodes n _ = n"

text \<open>
  \<open>traverse_replace visitor n\<close> models \<^verbatim>\<open>traverse(n, {noScope: true, T: function(path) ...})\<close>
  for a visitor that either leaves the node alone (\<open>None\<close>: the traversal descends into
  it) or replaces it and calls \<^verbatim>\<open>path.skip()\<close> (\<open>Some replacement\<close>: the traversal does not
  descend). The root \<open>n\<close> itself is not visited. The result is the tree after the
  traversal and whether the visitor has replaced a node.
\<close>

function traverse_replace ::
    "(node \<Rightarrow> error + node option) \<Rightarrow> node \<Rightarrow> error + node \<times> bool"
  and traverse_replace_list ::
    "(node \<Rightarrow> error + node option) \<Rightarrow> node list \<Rightarrow> error + node list \<times> bool"
where
  "traverse_replace visitor n =
     bind_err (traverse_replace_list visitor (sub_nodes n))
       (\<lambda>(ns, fired). Inr (with_sub_nodes n ns, fired))"
| "traverse_replace_list visitor [] = Inr ([], False)"
| "traverse_replace_list visitor (c # cs) =
     bind_err (visitor c) (\<lambda>r.
     bind_err (case r of Some replacement \<Rightarrow> Inr (replacement, True)
               | None \<Rightarrow> traverse_replace visitor c) (\<lambda>(c', fired).
     bind_err (traverse_replace_list visitor cs) (\<lambda>(cs', fired').
       Inr (c' # cs', fired \<or> fired'))))"
  by pat_completeness auto
termination
proof (relation "measure (\<lambda>x. case x of
          Inl (v, n) \<Rightarrow> 4 * size n + 1
        | Inr (v, ns) \<Rightarrow> sum_list (map (\<lambda>c. 4 * size c + 2) ns))", goal_cases)
  case 1
  show ?case by simp
next
  case (2 visitor n)
  have le: "sum_list (map (\<lambda>c. 4 * size c + 2) ns) \<le> 4 * size_list size ns"
    for ns :: "node list"
    by (induction ns) auto
  have "sum_list (map (\<lambda>c. 4 * size c + 2) (sub_nodes n)) < 4 * size n + 1"
  proof (cases n)
    case (CallExpression callee args)
    then show ?thesis using le [of args] by simp
  next
    case (JSXElement start nm attributes children closing)
    then show ?thesis using le [of attributes] le [of children] by simp
  next
    case (JSXFragment children)
    then show ?thesis using le [of children] by simp
  next
    case (OtherExpression tag ns)
    then show ?thesis using le [of ns] by simp
  next
    case (OtherNode tag ns)
    then show ?thesis using le [of ns] by simp
  qed (simp_all split: option.splits)
  then show ?case by simp
next
  case 3
  then show ?case by simp
next
  case 4
  then show ?case by simp
qed

text \<open>
  \<open>traverse_stop visitor n\<close> models a traversal whose visitor either leaves the node
  alone or replaces it and calls \<^verbatim>\<open>path.stop()\<close>, which ends the whole traversal. The
  visitor is given the parent of the node it visits. The result is the tree after the
  traversal and whether the traversal was stopped.
\<close>

function traverse_stop :: "(node \<Rightarrow> node \<Rightarrow> node option) \<Rightarrow> node \<Rightarrow> node \<times> bool"
  and traverse_stop_list ::
    "(node \<Rightarrow> node \<Rightarrow> node option) \<Rightarrow> node \<Rightarrow> node list \<Rightarrow> node list \<times> bool"
where
  "traverse_stop visitor n =
     (case traverse_stop_list visitor n (sub_nodes n) of
        (ns, stopped) \<Rightarrow> (with_sub_nodes n ns, stopped))"
| "traverse_stop_list visitor parent [] = ([], False)"
| "traverse_stop_list visitor parent (c # cs) =
     (case visitor parent c of
        Some replacement \<Rightarrow> (replacement # cs, True)
      | None \<Rightarrow>
          (case traverse_stop visitor c of
             (c', stopped) \<Rightarrow>
               if stopped then (c' # cs, True)
               else (case traverse_stop_list visitor parent cs of
                       (cs', stopped') \<Rightarrow> (c' # cs', stopped'))))"
  by pat_completeness auto
termination
proof (relation "measure (\<lambda>x. case x of
          Inl (v, n) \<Rightarrow> 4 * size n + 1
        | Inr (v, p, ns) \<Rightarrow> sum_list (map (\<lambda>c. 4 * size c + 2) ns))", goal_cases)
  case 1
  show ?case by simp
next
  case (2 visitor n)
  have le: "sum_list (map (\<lambda>c. 4 * size c + 2) ns) \<le> 4 * size_list size ns"
    for ns :: "node list"
    by (induction ns) auto
  have "sum_list (map (\<lambda>c. 4 * size c + 2) (sub_nodes n)) < 4 * size n + 1"
  proof (cases n)
    case (CallExpression callee args)
    then show ?thesis using le [of args] by simp
  next
    case (JSXElement start nm attributes children closing)
    then show ?thesis using le [of attributes] le [of children] by simp
  next
    case (JSXFragment children)
    then show ?thesis using le [of children] by simp
  next
    case (OtherExpression tag ns)
    then show ?thesis using le [of ns] by simp
  next
    case (OtherNode tag ns)
    then show ?thesis using le [of ns] by simp
  qed (simp_all split: option.splits)
  then show ?case by simp
next
  case 3
  then show ?case by simp
next
  case 4
  then show ?case by simp
qed

subsection \<open>\<^verbatim>\<open>mergeShowFunc\<close>\<close>

definition makeJsxElementWithShowCall :: "node \<Rightarrow> string \<Rightarrow> node" where
  "makeJsxElementWithShowCall jsxElement nodeId =
     LogicalExpression ''&&'' (makeCallExpression helperObject (''show'' @ nodeId)) jsxElement"

text \<open>The visitor \<^verbatim>\<open>CallExpression\<close> of the first traversal: a call of
  \<^verbatim>\<open>rh.show<editedNodeId>\<close> gets the new name as its callee's property, or is replaced by
  the expression parsed from \<^verbatim>\<open>"true"\<close>.\<close>

definition showCallVisitor :: "bool \<Rightarrow> string \<Rightarrow> string \<Rightarrow> node \<Rightarrow> error + node option" where
  "showCallVisitor newNodeCallShowFunc editedNodeId newNodeId n =
     (case n of
        CallExpression callee args \<Rightarrow>
          if calleeMatch callee helperObject (''show'' @ editedNodeId) then
            (if newNodeCallShowFunc then
               (case callee of
                  MemberExpression ob pr \<Rightarrow>
                    Inr (Some (CallExpression
                                 (MemberExpression ob (Identifier (''show'' @ newNodeId))) args))
                | _ \<Rightarrow> Inl AssertFailed)
             else Inr (Some (BooleanLiteral True)))
          else Inr None
      | _ \<Rightarrow> Inr None)"

text \<open>Modelled from the spec: \<^verbatim>\<open>isInHtmlContext\<close> of \<^verbatim>\<open>plasmic-parser\<close> is missing; the spec
  reads it as the test that the element stands as markup, that is as a child of a JSX
  element or fragment, where an expression needs an expression container.\<close>

definition isInHtmlContext :: "node \<Rightarrow> bool" where
  "isInHtmlContext parent = (is_jsx_element parent \<or> is_jsx_fragment parent)"

fun jsx_start :: "node \<Rightarrow> nat option" where
  "jsx_start (JSXElement start _ _ _ _) = start"
| "jsx_start _ = None"

text \<open>The visitor \<^verbatim>\<open>JSXElement\<close> of the second traversal.\<close>

definition wrapVisitor :: "nat option \<Rightarrow> string \<Rightarrow> node \<Rightarrow> node \<Rightarrow> node option" where
  "wrapVisitor start newNodeId parent n =
     (if is_jsx_element n \<and> jsx_start n = start then
        (let inHtmlContext = isInHtmlContext parent;
             expr = makeJsxElementWithShowCall n newNodeId
         in Some (if inHtmlContext then wrapInJsxExprContainer expr else expr))
      else None)"

text \<open>
  \<^verbatim>\<open>mergeShowFunc\<close>. The test \<^verbatim>\<open>editedNode.rawNode === editedNode.jsxElement.rawNode\<close>
  compares objects of one tree; both contain the element of the tag and an element is
  the only node of its tree at its \<^verbatim>\<open>start\<close>, so the objects are the same when their
  values are.
\<close>

definition mergeShowFunc :: "pnode \<Rightarrow> pnode \<Rightarrow> 'id CodeVersion \<Rightarrow> node \<Rightarrow> error + node" where
  "mergeShowFunc newNode editedNode newVersion editedNodeClone =
     (let editedNodeId = nameInId editedNode;
          newNodeId = nameInId newNode;
          newNodeCallShowFunc = hasShowFuncCall newVersion newNode
      in bind_err
           (traverse_replace (showCallVisitor newNodeCallShowFunc editedNodeId newNodeId)
              editedNodeClone)
           (\<lambda>(editedNodeClone', replacedShowCall).
              if newNodeCallShowFunc \<and> \<not> replacedShowCall then
                (if rawNode editedNode = jsxRaw editedNode then
                   (if \<not> is_jsx_element editedNodeClone' then Inl AssertFailed
                    else Inr (makeJsxElementWithShowCall editedNodeClone' newNodeId))
                 else
                   Inr (fst (traverse_stop
                               (wrapVisitor (jsx_start (jsxRaw editedNode)) newNodeId)
                               editedNodeClone')))
              else Inr editedNodeClone'))"

subsection \<open>The serializer\<close>

text \<open>
  The clone of the edited element with the merged attributes and children; a closing
  element is made when the clone has none and there are children. The clone is made by
  \<^verbatim>\<open>babel.types.cloneDeep\<close>, which copies the fields of the node type and \<^verbatim>\<open>loc\<close>, and not
  \<^verbatim>\<open>start\<close>: the clone has no \<^verbatim>\<open>start\<close>.
\<close>

fun withMergedParts :: "node \<Rightarrow> node list \<Rightarrow> node list \<Rightarrow> error + node" where
  "withMergedParts (JSXElement start nm _ _ closing) attributes children =
     Inr (JSXElement None nm attributes children (closing \<or> children \<noteq> []))"
| "withMergedParts _ attributes children = Inl TypeError"

definition serializeTagOrComponent ::
  "ser_table \<Rightarrow> pnode \<Rightarrow> 'id CodeVersion \<Rightarrow> 'id CodeVersion \<Rightarrow> 'id CodeVersion \<Rightarrow> ser_result"
where
  "serializeTagOrComponent tbl newNode newVersion editedVersion baseVersion =
     (let nodeId = getId newVersion newNode in
      case findNode editedVersion nodeId of
        Some editedNode \<Rightarrow>
          (case findNode baseVersion nodeId of
             None \<Rightarrow> Inl AssertFailed
           | Some baseNode \<Rightarrow>
               bind_err (mergeAttributes tbl newNode editedNode baseNode newVersion)
                 (\<lambda>attributes.
               bind_err (mergedChildren tbl newNode editedNode baseNode newVersion
                           editedVersion baseVersion) (\<lambda>children.
               bind_err (withMergedParts (jsxRaw editedNode) attributes children)
                 (\<lambda>editedNodeJsxElementClone.
               bind_err (mergeShowFunc newNode editedNode newVersion
                           (cloneDeepWithHook (rawNode editedNode)
                              (\<lambda>n. if n = jsxRaw editedNode
                                    then Some editedNodeJsxElementClone else None)))
                 (\<lambda>merged. Inr (Some merged))))))
      | None \<Rightarrow>
          (case findNode baseVersion nodeId of
             Some baseNode \<Rightarrow> Inr None
           | None \<Rightarrow> Inr (Some (rawNode newNode))))"

text \<open>The \<^verbatim>\<open>arg\<close> branch of \<^verbatim>\<open>serializeNonOpaquePlasmicASTNode\<close>: \<open>results\<close> pairs each of
  \<^verbatim>\<open>newNode.jsxNodes\<close> with the result of \<^verbatim>\<open>serializeTagOrComponent\<close> on it.\<close>

fun nodesToMerged_loop ::
  "(pnode \<times> ser_result) list \<Rightarrow> (node \<times> node) list \<Rightarrow> error + (node \<times> node) list"
where
  "nodesToMerged_loop [] nodesToMerged = Inr nodesToMerged"
| "nodesToMerged_loop ((n, r) # rest) nodesToMerged =
     bind_err r (\<lambda>rawMerged.
       nodesToMerged_loop rest
         (map_set (rawNode n)
            (case rawMerged of
               Some m \<Rightarrow> m
             | None \<Rightarrow> if is_container (rawNode n) then JSXExpressionContainer NullLiteral
                        else NullLiteral)
            nodesToMerged))"

definition serializeArg :: "(pnode \<times> ser_result) list \<Rightarrow> node \<Rightarrow> ser_result" where
  "serializeArg results raw =
     bind_err (nodesToMerged_loop results []) (\<lambda>nodesToMerged.
       Inr (Some (cloneDeepWithHook raw (map_of nodesToMerged))))"

text \<open>\<^verbatim>\<open>serializePlasmicASTNode\<close> with the branches of
  \<^verbatim>\<open>serializeNonOpaquePlasmicASTNode\<close> in place.\<close>

fun serializePlasmicASTNode ::
  "pnode \<Rightarrow> 'id CodeVersion \<Rightarrow> 'id CodeVersion \<Rightarrow> 'id CodeVersion \<Rightarrow> ser_result"
where
  "serializePlasmicASTNode (Opaque raw) newVersion editedVersion baseVersion = Inr (Some raw)"
| "serializePlasmicASTNode (Arg a jsxNodes raw) newVersion editedVersion baseVersion =
     serializeArg
       (map (\<lambda>n. (n, serializePlasmicASTNode n newVersion editedVersion baseVersion)) jsxNodes)
       raw"
| "serializePlasmicASTNode (CondStrCall raw) newVersion editedVersion baseVersion =
     Inr (Some raw)"
| "serializePlasmicASTNode (StringLit v raw) newVersion editedVersion baseVersion =
     Inr (Some raw)"
| "serializePlasmicASTNode (TextNode v raw) newVersion editedVersion baseVersion =
     Inr (Some raw)"
| "serializePlasmicASTNode (TagOrComponent raw x jsx attrs children) newVersion editedVersion
      baseVersion =
     serializeTagOrComponent
       (concat (map (\<lambda>a. case a of
                        PNamed name v \<Rightarrow>
                          [(v, serializePlasmicASTNode v newVersion editedVersion baseVersion)]
                      | PSpread _ \<Rightarrow> []) attrs)
        @ map (\<lambda>c. (c, serializePlasmicASTNode c newVersion editedVersion baseVersion))
            children)
       (TagOrComponent raw x jsx attrs children) newVersion editedVersion baseVersion"

definition serializeNonOpaquePlasmicASTNode ::
  "pnode \<Rightarrow> 'id CodeVersion \<Rightarrow> 'id CodeVersion \<Rightarrow> 'id CodeVersion \<Rightarrow> ser_result"
where
  "serializeNonOpaquePlasmicASTNode newNode newVersion editedVersion baseVersion =
     (if is_opaque newNode then Inl AssertFailed
      else serializePlasmicASTNode newNode newVersion editedVersion baseVersion)"

subsection \<open>Scenarios of the specification\<close>

fun is_perfect :: "MatchResult \<Rightarrow> bool" where
  "is_perfect (Perfect _) = True"
| "is_perfect _ = False"

text \<open>A version whose index holds the one tag \<open>r\<close>, which carries the managed
  \<^verbatim>\<open>className\<close> and no visibility call.\<close>

definition example_version :: "pnode \<Rightarrow> string CodeVersion" where
  "example_version r =
     \<lparr>findNode = (\<lambda>i. if i = nameInId r then Some r else None), getId = nameInId,
      getUuid = (\<lambda>x. x), hasClassNameIdAttr = (\<lambda>n. True), hasPropsIdSpreador = (\<lambda>n. False),
      hasShowFuncCall = (\<lambda>n. False), root = r\<rparr>"

text \<open>Scenario S6: \<^verbatim>\<open><p className={rh.clsP()}>t</p>\<close> with the one text child \<open>t\<close>.\<close>

definition s6_element :: "string \<Rightarrow> node" where
  "s6_element t = JSXElement (Some 0) (JSXIdentifier ''p'') [classNameAttr ''P''] [JSXText t] True"

definition s6_tag :: "string \<Rightarrow> pnode" where
  "s6_tag t = TagOrComponent (s6_element t) ''P'' (s6_element t) [] [TextNode t (JSXText t)]"

text \<open>Scenario S4: \<^verbatim>\<open><div className={rh.clsRoot()} title="t"/>\<close>.\<close>

definition s4_element :: "string \<Rightarrow> node" where
  "s4_element t = JSXElement (Some 0) (JSXIdentifier ''div'')
      [classNameAttr ''Root'', JSXAttribute (JSXIdentifier ''title'') (Some (StringLiteral t))]
      [] False"

definition s4_tag :: "string \<Rightarrow> pnode" where
  "s4_tag t = TagOrComponent (s4_element t) ''Root'' (s4_element t)
      [PNamed ''title'' (StringLit t (StringLiteral t))] []"

text \<open>An element whose managed \<^verbatim>\<open>className\<close> call was given the arguments \<open>args\<close>:
  \<^verbatim>\<open><div className={rh.clsRoot(args)}/>\<close>.\<close>

definition cls_args_element :: "node list \<Rightarrow> node" where
  "cls_args_element args = JSXElement (Some 0) (JSXIdentifier ''div'')
      [JSXAttribute (JSXIdentifier ''className'')
         (Some (JSXExpressionContainer
                  (CallExpression (makeMemberExpression helperObject ''clsRoot'') args)))]
      [] False"

definition cls_args_tag :: "node list \<Rightarrow> pnode" where
  "cls_args_tag args =
     TagOrComponent (cls_args_element args) ''Root'' (cls_args_element args) [] []"

text \<open>An element named \<open>x\<close> with the managed \<^verbatim>\<open>className\<close> and further attributes:
  \<^verbatim>\<open><div className={rh.cls<x>()} ... />\<close>.\<close>

definition attrs_element :: "string \<Rightarrow> node list \<Rightarrow> node" where
  "attrs_element x others =
     JSXElement (Some 0) (JSXIdentifier ''div'') (classNameAttr x # others) [] False"

definition attrs_tag :: "string \<Rightarrow> node list \<Rightarrow> pnode" where
  "attrs_tag x others =
     TagOrComponent (attrs_element x others) x (attrs_element x others) [] []"

text \<open>The attribute \<^verbatim>\<open>onClick={rh.onOldClick}\<close>.\<close>

definition onClick_old :: node where
  "onClick_old =
     JSXAttribute (JSXIdentifier ''onClick'')
       (Some (JSXExpressionContainer (makeMemberExpression helperObject ''onOldClick'')))"

subsection \<open>The conflict table in the words of the specification\<close>

text \<open>An ordered rule list: the outcome of the first rule whose condition holds.\<close>

fun first_rule :: "(bool \<times> 'a) list \<Rightarrow> 'a \<Rightarrow> 'a" where
  "first_rule [] otherwise = otherwise"
| "first_rule ((cond, outcome) # rules) otherwise =
     (if cond then outcome else first_rule rules otherwise)"

text \<open>\<open>base \<equiv> x\<close> for an optional base attribute: an absent base equals nothing.\<close>

definition deq_opt :: "node option \<Rightarrow> node \<Rightarrow> bool" where
  "deq_opt base x =
     (case base of None \<Rightarrow> False | Some b \<Rightarrow> nodesDeepEqualIgnoreComments b x)"

definition spec_conflict_table :: "string \<Rightarrow> node option \<Rightarrow> node \<Rightarrow> node \<Rightarrow> resolution" where
  "spec_conflict_table name base edited new =
     first_rule
       [(nodesDeepEqualIgnoreComments edited new, EmitEdited),
        (base = None, EmitBoth),
        (deq_opt base edited, EmitNew),
        (startsWith name ''on'' \<or> deq_opt base new, EmitEdited)]
       EmitBoth"

text \<open>What an outcome of the table asks of step 1 (the new attribute) and of step 2 (the
  edited attribute).\<close>

definition emits_new :: "resolution \<Rightarrow> bool" where
  "emits_new r = (r = EmitBoth \<or> r = EmitNew)"

definition emits_edited :: "resolution \<Rightarrow> bool" where
  "emits_edited r = (r = EmitBoth \<or> r = EmitEdited)"

text \<open>Whether the member reference \<^verbatim>\<open>rh.name\<close> occurs in a tree.\<close>

function contains_member_ref :: "string \<Rightarrow> node \<Rightarrow> bool" where
  "contains_member_ref name n =
     (memberExpressionMatch n helperObject name
      \<or> list_ex (contains_member_ref name) (sub_nodes n))"
  by pat_completeness auto
termination
proof (relation "measure (\<lambda>(name, n). size n)", goal_cases)
  case 1
  show ?case by simp
next
  case (2 name n c)
  have le: "x \<in> set xs \<Longrightarrow> size x < Suc (size_list size xs)" for x :: node and xs
    by (induction xs) auto
  from 2 have "size c < size n"
    by (cases n) (auto split: option.splits dest: le)
  then show ?case by simp
qed

declare contains_member_ref.simps [simp del]

subsection \<open>The visibility table in the words of the specification\<close>

text \<open>Whether a node is a call of \<^verbatim>\<open>rh.name\<close>, and whether a tree contains one.\<close>

fun is_call_of :: "string \<Rightarrow> node \<Rightarrow> bool" where
  "is_call_of name (CallExpression callee args) = calleeMatch callee helperObject name"
| "is_call_of name _ = False"

function contains_call :: "string \<Rightarrow> node \<Rightarrow> bool" where
  "contains_call name n = (is_call_of name n \<or> list_ex (contains_call name) (sub_nodes n))"
  by pat_completeness auto
termination
proof (relation "measure (\<lambda>(name, n). size n)", goal_cases)
  case 1
  show ?case by simp
next
  case (2 name n c)
  have le: "x \<in> set xs \<Longrightarrow> size x < Suc (size_list size xs)" for x :: node and xs
    by (induction xs) auto
  from 2 have "size c < size n"
    by (cases n) (auto split: option.splits dest: le)
  then show ?case by simp
qed

declare contains_call.simps [simp del]

text \<open>The condition \<open>E\<close> of the table: the tree contains a call of \<^verbatim>\<open>rh.name\<close> below its
  root (a traversal does not visit the root it is started on).\<close>

definition contains_call_below :: "string \<Rightarrow> node \<Rightarrow> bool" where
  "contains_call_below name n = list_ex (contains_call name) (sub_nodes n)"

text \<open>The two rewrites of the table as hooks of the cloning primitive: a call of
  \<^verbatim>\<open>rh.old\<close> becomes the same call of \<^verbatim>\<open>rh.new\<close> (\<open>rename = True\<close>) or the literal
  \<^verbatim>\<open>true\<close> (\<open>rename = False\<close>); the rewrite applies below the root.\<close>

fun showHook :: "bool \<Rightarrow> string \<Rightarrow> string \<Rightarrow> node \<Rightarrow> node option" where
  "showHook rename old new (CallExpression callee args) =
     (if callee = makeMemberExpression helperObject old
      then Some (if rename then CallExpression (makeMemberExpression helperObject new) args
                 else BooleanLiteral True)
      else None)"
| "showHook rename old new _ = None"

definition rewrite_below :: "(node \<Rightarrow> node option) \<Rightarrow> node \<Rightarrow> node" where
  "rewrite_below hook n =
     with_sub_nodes n (map (\<lambda>c. cloneDeepWithHook c hook) (sub_nodes n))"

text \<open>
  Scenario S5: the element \<^verbatim>\<open><Row className={rh.cls<x>()}/>\<close> with a given \<^verbatim>\<open>start\<close>; the
  expressions \<^verbatim>\<open>rh.show<x>() && e\<close> and \<^verbatim>\<open>c ? e : null\<close> around an element \<open>e\<close>; a tag named \<open>x\<close>
  whose element stands at offset \<open>s\<close> inside the raw node made from it by \<open>around\<close>; and a
  version that holds the one tag \<open>r\<close> under the id \<^verbatim>\<open>row\<close> and answers
  \<^verbatim>\<open>hasShowFuncCall\<close> with \<open>b\<close>.
\<close>

definition row_at :: "string \<Rightarrow> nat option \<Rightarrow> node" where
  "row_at x s = JSXElement s (JSXIdentifier ''Row'') [classNameAttr x] [] False"

definition shown :: "string \<Rightarrow> node \<Rightarrow> node" where
  "shown x e = makeJsxElementWithShowCall e x"

definition conditional :: "node \<Rightarrow> node" where
  "conditional e = OtherExpression ''ConditionalExpression'' [Identifier ''c'', e, NullLiteral]"

definition row_tag :: "string \<Rightarrow> nat \<Rightarrow> (node \<Rightarrow> node) \<Rightarrow> pnode" where
  "row_tag x s around = TagOrComponent (around (row_at x (Some s))) x (row_at x (Some s)) [] []"

definition show_version :: "bool \<Rightarrow> pnode \<Rightarrow> string CodeVersion" where
  "show_version b r =
     \<lparr>findNode = (\<lambda>i. if i = ''row'' then Some r else None), getId = (\<lambda>n. ''row''),
      getUuid = (\<lambda>x. ''row''), hasClassNameIdAttr = (\<lambda>n. True),
      hasPropsIdSpreador = (\<lambda>n. False), hasShowFuncCall = (\<lambda>n. b), root = r\<rparr>"

text \<open>\<open>element_at s n\<close>: the tree \<open>n\<close> has an element whose \<^verbatim>\<open>start\<close> is \<open>s\<close>, at its root or
  below it.\<close>

function element_at :: "nat option \<Rightarrow> node \<Rightarrow> bool" where
  "element_at s n =
     (is_jsx_element n \<and> jsx_start n = s \<or> list_ex (element_at s) (sub_nodes n))"
  by pat_completeness auto
termination
proof (relation "measure (\<lambda>(s, n). size n)", goal_cases)
  case 1
  show ?case by simp
next
  case (2 s n c)
  have le: "x \<in> set xs \<Longrightarrow> size x < Suc (size_list size xs)" for x :: node and xs
    by (induction xs) auto
  from 2 have "size c < size n"
    by (cases n) (auto split: option.splits dest: le)
  then show ?case by simp
qed

declare element_at.simps [simp del]

text \<open>
  The serializer on scenario S5: the new tag \<open>New\<close> with its element at offset 20, with the
  visibility call around the element when \<open>N\<close>; the edited tag \<open>Old\<close> with its element at
  offset 5 inside the raw node that \<open>around\<close> makes, \<open>E\<close> telling whether that has the
  visibility call; the base version is the edited one.
\<close>

definition new_row :: "bool \<Rightarrow> pnode" where
  "new_row N = row_tag ''New'' 20 (if N then shown ''New'' else (\<lambda>e. e))"

definition edited_row :: "(node \<Rightarrow> node) \<Rightarrow> pnode" where
  "edited_row around = row_tag ''Old'' 5 around"

definition serialize_row :: "bool \<Rightarrow> bool \<Rightarrow> (node \<Rightarrow> node) \<Rightarrow> ser_result" where
  "serialize_row N E around =
     serializePlasmicASTNode (new_row N) (show_version N (new_row N))
       (show_version E (edited_row around)) (show_version E (edited_row around))"

subsection \<open>Import declarations\<close>

datatype specifier =
    ImportDefaultSpecifier string
  | ImportSpecifier string string
  | ImportNamespaceSpecifier string

text \<open>
  \<open>ImportDefaultSpecifier local\<close>, \<open>ImportSpecifier local imported\<close> and
  \<open>ImportNamespaceSpecifier local\<close> carry the names of the identifiers. An import
  declaration has its specifiers, its source, and the comments attached to it;
  \<open>leadingComments = None\<close> is \<^verbatim>\<open>null\<close>.
\<close>

record ImportDeclaration =
  specifiers :: "specifier list"
  source :: string
  leadingComments :: "Comment list option"
  trailingComments :: "Comment list"

text \<open>A statement of a file is an import declaration or another statement, and a file
  is the body of its program.\<close>

datatype statement = ImportStmt ImportDeclaration | Stmt node

type_synonym File = "statement list"

subsection \<open>The regular expressions of the markers\<close>

text \<open>The character classes \<^verbatim>\<open>\s\<close>, \<^verbatim>\<open>\d\<close> and \<^verbatim>\<open>\w\<close> on ASCII text.\<close>

definition isSpace :: "char \<Rightarrow> bool" where
  "isSpace c = (c \<in> set [CHR '' '', CHR 0x09, CHR 0x0A, CHR 0x0B, CHR 0x0C, CHR 0x0D])"

definition isDigit :: "char \<Rightarrow> bool" where
  "isDigit c = (CHR ''0'' \<le> c \<and> c \<le> CHR ''9'')"

definition isWordChar :: "char \<Rightarrow> bool" where
  "isWordChar c =
     ((CHR ''a'' \<le> c \<and> c \<le> CHR ''z'') \<or> (CHR ''A'' \<le> c \<and> c \<le> CHR ''Z'') \<or> isDigit c
      \<or> c = CHR ''_'')"

fun strip_prefix :: "string \<Rightarrow> string \<Rightarrow> string option" where
  "strip_prefix [] s = Some s"
| "strip_prefix (p # ps) [] = None"
| "strip_prefix (p # ps) (c # cs) = (if p = c then strip_prefix ps cs else None)"

text \<open>
  \<^verbatim>\<open>/plasmic-import:\s+([\w-]+)(?:\/(component|css|render|globalVariant|projectcss|defaultcss))?/\<close>:
  \<open>match_import_at\<close> matches at the start of a string, \<open>match_import\<close> searches the string
  from the left. The result is the pair of the groups 1 and 2.
\<close>

definition import_type_names :: "string list" where
  "import_type_names =
     [''component'', ''css'', ''render'', ''globalVariant'', ''projectcss'', ''defaultcss'']"

definition match_import_at :: "string \<Rightarrow> (string \<times> string option) option" where
  "match_import_at s =
     (case strip_prefix ''plasmic-import:'' s of
        None \<Rightarrow> None
      | Some r \<Rightarrow>
          (let spaces = takeWhile isSpace r; r' = dropWhile isSpace r;
               ident = takeWhile (\<lambda>c. isWordChar c \<or> c = CHR ''-'') r';
               r'' = dropWhile (\<lambda>c. isWordChar c \<or> c = CHR ''-'') r'
           in if spaces = [] \<or> ident = [] then None
              else Some (ident,
                     (case strip_prefix ''/'' r'' of
                        None \<Rightarrow> None
                      | Some t \<Rightarrow>
                          find (\<lambda>nm. strip_prefix nm t \<noteq> None) import_type_names))))"

fun match_import :: "string \<Rightarrow> (string \<times> string option) option" where
  "match_import [] = match_import_at []"
| "match_import (c # cs) =
     (case match_import_at (c # cs) of Some m \<Rightarrow> Some m | None \<Rightarrow> match_import cs)"

text \<open>
  The numbers that the conversion of a string of digits gives are the non-negative
  integers among the doubles and \<^verbatim>\<open>Infinity\<close>. \<open>round_to_double n\<close> is the double nearest to
  \<open>n\<close>, a tie going to the even significand of 53 bits, and \<^verbatim>\<open>Infinity\<close> from \<open>2^1024\<close> on;
  \<open>to_number\<close> is the unary \<^verbatim>\<open>+\<close> on a string of digits.
\<close>

datatype js_number = Finite nat | Infinity

definition digits_value :: "string \<Rightarrow> nat" where
  "digits_value ds = foldl (\<lambda>n c. 10 * n + (of_char c - of_char CHR ''0'')) 0 ds"

fun bit_length :: "nat \<Rightarrow> nat" where
  "bit_length n = (if n = 0 then 0 else Suc (bit_length (n div 2)))"

declare bit_length.simps [simp del]

definition round_to_double :: "nat \<Rightarrow> js_number" where
  "round_to_double n =
     (if bit_length n \<le> 53 then Finite n
      else
        (let e = bit_length n - 53; q = n div 2 ^ e; r = n mod 2 ^ e; half = 2 ^ (e - 1);
             m = (if half < r \<or> (r = half \<and> odd q) then q + 1 else q);
             v = m * 2 ^ e
         in if 1024 < bit_length v then Infinity else Finite v))"

definition to_number :: "string \<Rightarrow> js_number" where
  "to_number ds = round_to_double (digits_value ds)"

text \<open>
  The text of a number in a template literal. \<open>string_of_nat\<close> is the decimal numeral.
  \<open>shortest_digits x j\<close> is the integer \<open>s\<close> next to \<open>x / 10^j\<close> for which \<open>s * 10^j\<close> is
  rounded to \<open>x\<close>, the nearer of two and then the even one. The text has the digits of
  the \<open>s\<close> of the greatest such \<open>j\<close>, which are the fewest, followed by \<open>j\<close> zeros, or
  the exponent form when that would be more than 21 digits.
\<close>

fun string_of_nat :: "nat \<Rightarrow> string" where
  "string_of_nat n =
     (if n < 10 then [char_of (48 + n)]
      else string_of_nat (n div 10) @ [char_of (48 + n mod 10)])"

declare string_of_nat.simps [simp del]

definition shortest_digits :: "nat \<Rightarrow> nat \<Rightarrow> nat option" where
  "shortest_digits x j =
     (let s = x div 10 ^ j;
          below = (0 < s \<and> round_to_double (s * 10 ^ j) = Finite x);
          above = (round_to_double ((s + 1) * 10 ^ j) = Finite x)
      in if below \<and> above then
           (let d = x - s * 10 ^ j; u = (s + 1) * 10 ^ j - x
            in Some (if d < u \<or> (d = u \<and> even s) then s else s + 1))
         else if below then Some s
         else if above then Some (s + 1)
         else None)"

definition number_text :: "js_number \<Rightarrow> string" where
  "number_text x =
     (case x of
        Infinity \<Rightarrow> ''Infinity''
      | Finite v \<Rightarrow>
          if v = 0 then ''0''
          else
            (case find (\<lambda>j. shortest_digits v j \<noteq> None)
                    (rev [0 ..< Suc (length (string_of_nat v))]) of
               None \<Rightarrow> string_of_nat v
             | Some j \<Rightarrow>
                 (case shortest_digits v j of
                    None \<Rightarrow> string_of_nat v
                  | Some s \<Rightarrow>
                      (let ds = string_of_nat s; n = length ds + j
                       in if n \<le> 21 then ds @ replicate j CHR ''0''
                          else [hd ds] @ (if tl ds = [] then [] else CHR ''.'' # tl ds)
                               @ ''e+'' @ string_of_nat (n - 1)))))"

text \<open>\<^verbatim>\<open>/^\s*plasmic-managed-jsx\/(\d+)\s*$/\<close> with the number \<^verbatim>\<open>+m[1]\<close> of group 1 as its
  result.\<close>

definition match_managed_jsx :: "string \<Rightarrow> js_number option" where
  "match_managed_jsx s =
     (case strip_prefix ''plasmic-managed-jsx/'' (dropWhile isSpace s) of
        None \<Rightarrow> None
      | Some t \<Rightarrow>
          (let ds = takeWhile isDigit t; rest = dropWhile isDigit t
           in if ds = [] \<or> dropWhile isSpace rest \<noteq> [] then None
              else Some (to_number ds)))"

subsection \<open>The import merger\<close>

record 'n PlasmicImportSpec =
  spec_id :: string
  spec_type :: "string option"
  spec_node :: 'n

definition tryParsePlasmicImportSpec ::
  "ImportDeclaration \<Rightarrow> (string \<times> string option) option"
where
  "tryParsePlasmicImportSpec node =
     (case trailingComments node of
        [] \<Rightarrow> None
      | c # _ \<Rightarrow> match_import (comment_value c))"

text \<open>\<^verbatim>\<open>compareImports\<close>: \<open><\<close> on strings is the lexicographic order of the character
  codes, as \<^verbatim>\<open><\<close> on JavaScript strings is for ASCII text.\<close>

definition compareImports :: "'n PlasmicImportSpec \<Rightarrow> 'n PlasmicImportSpec \<Rightarrow> int" where
  "compareImports import1 import2 =
     (if spec_id import1 \<noteq> spec_id import2 then
        (if spec_id import1 < spec_id import2 then -1 else 1)
      else if spec_type import1 \<noteq> spec_type import2 then
        (case spec_type import1 of
           None \<Rightarrow> -1
         | Some t1 \<Rightarrow>
             (case spec_type import2 of
                None \<Rightarrow> 1
              | Some t2 \<Rightarrow> if t1 < t2 then -1 else 1))
      else 0)"

text \<open>\<^verbatim>\<open>mergeImports\<close>: \<open>cloned\<close> starts as the copy of \<open>i1\<close>; each specifier of \<open>i2\<close> is
  looked up in \<open>i1\<close> itself.\<close>

fun mergeImports_loop ::
  "ImportDeclaration \<Rightarrow> specifier list \<Rightarrow> ImportDeclaration \<Rightarrow> ImportDeclaration"
where
  "mergeImports_loop i1 [] cloned = cloned"
| "mergeImports_loop i1 (ImportDefaultSpecifier local2 # rest) cloned =
     (if find (\<lambda>s1. case s1 of ImportDefaultSpecifier local1 \<Rightarrow> local1 = local2 | _ \<Rightarrow> False)
            (specifiers i1) \<noteq> None
      then mergeImports_loop i1 rest cloned
      else mergeImports_loop i1 rest
             (cloned\<lparr>specifiers := specifiers cloned @ [ImportDefaultSpecifier local2]\<rparr>))"
| "mergeImports_loop i1 (ImportSpecifier local2 imported2 # rest) cloned =
     (if find (\<lambda>s1. case s1 of
                      ImportSpecifier local1 imported1 \<Rightarrow>
                        local1 = local2 \<and> imported1 = imported2
                    | _ \<Rightarrow> False)
            (specifiers i1) \<noteq> None
      then mergeImports_loop i1 rest cloned
      else mergeImports_loop i1 rest
             (cloned\<lparr>specifiers := specifiers cloned @ [ImportSpecifier local2 imported2]\<rparr>))"
| "mergeImports_loop i1 (ImportNamespaceSpecifier local2 # rest) cloned =
     mergeImports_loop i1 rest
       (cloned\<lparr>specifiers := specifiers cloned @ [ImportNamespaceSpecifier local2]\<rparr>)"

definition mergeImports :: "ImportDeclaration \<Rightarrow> ImportDeclaration \<Rightarrow> ImportDeclaration" where
  "mergeImports i1 i2 = mergeImports_loop i1 (specifiers i2) i1"

text \<open>\<^verbatim>\<open>allImports.sort(compareImports)\<close>: \<^verbatim>\<open>Array.prototype.sort\<close> is a stable sort; the
  model is the stable insertion sort with the comparator.\<close>

fun insort_imports ::
  "'n PlasmicImportSpec \<Rightarrow> 'n PlasmicImportSpec list \<Rightarrow> 'n PlasmicImportSpec list"
where
  "insort_imports x [] = [x]"
| "insort_imports x (y # ys) =
     (if compareImports x y \<le> 0 then x # y # ys else y # insort_imports x ys)"

definition sort_imports :: "'n PlasmicImportSpec list \<Rightarrow> 'n PlasmicImportSpec list" where
  "sort_imports xs = foldr insort_imports xs []"

text \<open>The \<^verbatim>\<open>while (i < allImports.length)\<close> loop of \<^verbatim>\<open>mergePlasmicImports\<close>, on the
  imports from index \<open>i\<close> on.\<close>

fun merge_pass :: "ImportDeclaration PlasmicImportSpec list \<Rightarrow> ImportDeclaration list" where
  "merge_pass [] = []"
| "merge_pass [a] = [spec_node a]"
| "merge_pass (a # b # rest) =
     (if compareImports a b = 0
      then mergeImports (spec_node a) (spec_node b) # merge_pass rest
      else spec_node a # merge_pass (b # rest))"

text \<open>\<^verbatim>\<open>extractPlasmicImports\<close>: the managed imports of a file in the order of the file.\<close>

fun extractPlasmicImports :: "File \<Rightarrow> ImportDeclaration PlasmicImportSpec list" where
  "extractPlasmicImports [] = []"
| "extractPlasmicImports (ImportStmt node # rest) =
     (case tryParsePlasmicImportSpec node of
        Some (i, t) \<Rightarrow>
          \<lparr>spec_id = i, spec_type = t, spec_node = node\<rparr> # extractPlasmicImports rest
      | None \<Rightarrow> extractPlasmicImports rest)"
| "extractPlasmicImports (Stmt _ # rest) = extractPlasmicImports rest"

text \<open>\<^verbatim>\<open>importDecl.node.leadingComments = null\<close>, as a value.\<close>

definition dropLeadingComments ::
  "ImportDeclaration PlasmicImportSpec \<Rightarrow> ImportDeclaration PlasmicImportSpec"
where
  "dropLeadingComments importDecl =
     importDecl\<lparr>spec_node := (spec_node importDecl)\<lparr>leadingComments := None\<rparr>\<rparr>"

text \<open>The list \<^verbatim>\<open>mergedImports\<close> of \<^verbatim>\<open>mergePlasmicImports\<close>.\<close>

definition mergedImports :: "File \<Rightarrow> File \<Rightarrow> ImportDeclaration list" where
  "mergedImports newFile editedFile =
     (let newImports = extractPlasmicImports newFile;
          editedImports = extractPlasmicImports editedFile;
          allImports = sort_imports (editedImports @ newImports)
      in merge_pass (map dropLeadingComments allImports))"

text \<open>The callback of \<^verbatim>\<open>mergedFile.program.body.filter((stmt, i) => ...)\<close> run over the body
  from index \<open>i\<close>: the statements kept, \<^verbatim>\<open>firstImport\<close> and \<^verbatim>\<open>firstPlasmicImport\<close>.\<close>

fun filter_body :: "File \<Rightarrow> int \<Rightarrow> int \<Rightarrow> int \<Rightarrow> File \<times> int \<times> int" where
  "filter_body [] i firstImport firstPlasmicImport = ([], firstImport, firstPlasmicImport)"
| "filter_body (Stmt n # rest) i firstImport firstPlasmicImport =
     (case filter_body rest (i + 1) firstImport firstPlasmicImport of
        (kept, fi, fp) \<Rightarrow> (Stmt n # kept, fi, fp))"
| "filter_body (ImportStmt d # rest) i firstImport firstPlasmicImport =
     (let firstImport' = (if firstImport = -1 then i else firstImport)
      in if tryParsePlasmicImportSpec d \<noteq> None then
           filter_body rest (i + 1) firstImport'
             (if firstPlasmicImport = -1 then i else firstPlasmicImport)
         else
           (case filter_body rest (i + 1) firstImport' firstPlasmicImport of
              (kept, fi, fp) \<Rightarrow> (ImportStmt d # kept, fi, fp)))"

text \<open>\<^verbatim>\<open>mergePlasmicImports(mergedFile, parsedNew, parsedEdited)\<close>: the body of the merged
  file afterwards.\<close>

definition mergePlasmicImports :: "File \<Rightarrow> File \<Rightarrow> File \<Rightarrow> File" where
  "mergePlasmicImports mergedFile newFile editedFile =
     (case filter_body mergedFile 0 (-1) (-1) of
        (body, firstImport, firstPlasmicImport) \<Rightarrow>
          (let insertMergedImportsAt =
                 (if firstPlasmicImport > -1 then firstPlasmicImport
                  else if firstImport > -1 then firstImport else 0)
           in take (nat insertMergedImportsAt) body
              @ map ImportStmt (mergedImports newFile editedFile)
              @ drop (nat insertMergedImportsAt) body))"

subsection \<open>The import merger in the words of the specification\<close>

text \<open>\<open>mergeSpecifiers a b\<close>: copy \<open>a\<close>; a default or named specifier of \<open>b\<close> is included
  unless \<open>a\<close> has it already, a namespace specifier always.\<close>

fun already_has :: "ImportDeclaration \<Rightarrow> specifier \<Rightarrow> bool" where
  "already_has a (ImportDefaultSpecifier l) = (ImportDefaultSpecifier l \<in> set (specifiers a))"
| "already_has a (ImportSpecifier l i) = (ImportSpecifier l i \<in> set (specifiers a))"
| "already_has a (ImportNamespaceSpecifier l) = False"

definition mergeSpecifiers :: "ImportDeclaration \<Rightarrow> ImportDeclaration \<Rightarrow> specifier list" where
  "mergeSpecifiers a b = specifiers a @ filter (\<lambda>s. \<not> already_has a s) (specifiers b)"

text \<open>The pair \<open>(id, type)\<close> of an annotated import, and of a declaration read from its
  comment.\<close>

definition spec_key :: "'n PlasmicImportSpec \<Rightarrow> string \<times> string option" where
  "spec_key s = (spec_id s, spec_type s)"

definition import_key :: "ImportDeclaration \<Rightarrow> (string \<times> string option) option" where
  "import_key node = tryParsePlasmicImportSpec node"

definition spec_ok :: "ImportDeclaration PlasmicImportSpec \<Rightarrow> bool" where
  "spec_ok s = (import_key (spec_node s) = Some (spec_key s))"

text \<open>Scenario S7: \<^verbatim>\<open>import {names} from "m" // plasmic-import: 7\<close>.\<close>

definition s7_import :: "string list \<Rightarrow> ImportDeclaration" where
  "s7_import names =
     \<lparr>specifiers = map (\<lambda>n. ImportSpecifier n n) names, source = ''m'',
      leadingComments = Some [], trailingComments = [Comment '' plasmic-import: 7'']\<rparr>"

text \<open>
  The union of the managed imports in the words of the specification: \<open>import_with_key f k\<close>
  is the managed import of the file \<open>f\<close> with the \<open>(id, type)\<close> pair \<open>k\<close>, without its
  leading comments; \<open>union_import\<close> is the import of the edited file with the specifiers of
  the new file's import merged into it, or the one import that there is; and \<open>union_keys\<close>
  are the \<open>(id, type)\<close> pairs of the two files in ascending order, each once.
  \<open>group_merge\<close> is what the loop of the merger makes of the imports with one
  \<open>(id, type)\<close> when there are one or two of them.
\<close>

definition import_with_key :: "File \<Rightarrow> string \<times> string option \<Rightarrow> ImportDeclaration option"
where
  "import_with_key f k =
     map_option (\<lambda>s. spec_node (dropLeadingComments s))
       (find (\<lambda>s. spec_key s = k) (extractPlasmicImports f))"

definition union_import ::
  "File \<Rightarrow> File \<Rightarrow> string \<times> string option \<Rightarrow> ImportDeclaration option"
where
  "union_import edited_body new_body k =
     (case import_with_key edited_body k of
        Some e \<Rightarrow>
          (case import_with_key new_body k of
             Some n \<Rightarrow> Some (e\<lparr>specifiers := mergeSpecifiers e n\<rparr>)
           | None \<Rightarrow> Some e)
      | None \<Rightarrow> import_with_key new_body k)"

definition union_keys :: "File \<Rightarrow> File \<Rightarrow> (string \<times> string option) list" where
  "union_keys edited_body new_body =
     sort (remdups (map spec_key (extractPlasmicImports edited_body
                                  @ extractPlasmicImports new_body)))"

fun group_merge :: "ImportDeclaration PlasmicImportSpec list \<Rightarrow> ImportDeclaration option" where
  "group_merge [a] = Some (spec_node a)"
| "group_merge [a, b] = Some (mergeImports (spec_node a) (spec_node b))"
| "group_merge _ = None"

text \<open>Two managed imports with the same id and different names,
  \<^verbatim>\<open>import {A} from "m" // plasmic-import: 7\<close> and \<^verbatim>\<open>import {A2} from "m" // plasmic-import: 7\<close>,
  in the edited file, and a third in the new file.\<close>

definition twice_edited_file :: File where
  "twice_edited_file = [ImportStmt (s7_import [''A'']), ImportStmt (s7_import [''A2''])]"

definition once_new_file :: File where
  "once_new_file = [ImportStmt (s7_import [''B''])]"

text \<open>The managed import \<^verbatim>\<open>import {names} from "m" // plasmic-import: i\<close>, and two files
  with managed imports of the ids 7, 8 and 9.\<close>

definition managed_import :: "string \<Rightarrow> string list \<Rightarrow> ImportDeclaration" where
  "managed_import i names =
     \<lparr>specifiers = map (\<lambda>n. ImportSpecifier n n) names, source = ''m'',
      leadingComments = Some [], trailingComments = [Comment ('' plasmic-import: '' @ i)]\<rparr>"

definition union_edited_file :: File where
  "union_edited_file =
     [ImportStmt (managed_import ''9'' [''Z'']), ImportStmt (managed_import ''7'' [''A'', ''B''])]"

definition union_new_file :: File where
  "union_new_file =
     [ImportStmt (managed_import ''7'' [''B'', ''C'']), ImportStmt (managed_import ''8'' [''Y''])]"

subsection \<open>Finding the managed markup of a file\<close>

record VersionedJsx =
  jsx :: node
  jsx_revision :: js_number
  identifyingComment :: Comment

record PlasmicComponentSkeletonFile = VersionedJsx +
  parsed_file :: File

text \<open>The first comment of \<^verbatim>\<open>node.leadingComments\<close> that matches the marker, with the
  revision it carries.\<close>

fun first_marker :: "Comment list \<Rightarrow> (Comment \<times> js_number) option" where
  "first_marker [] = None"
| "first_marker (c # cs) =
     (case match_managed_jsx (comment_value c) of
        Some m \<Rightarrow> Some (c, m)
      | None \<Rightarrow> first_marker cs)"

definition tryExtractPlasmicJsxExpression :: "node \<Rightarrow> error + VersionedJsx option" where
  "tryExtractPlasmicJsxExpression node =
     (case node of
        AssignmentExpression cs l r \<Rightarrow>
          (case first_marker cs of
             None \<Rightarrow> Inr None
           | Some (c, m) \<Rightarrow> Inr (Some \<lparr>jsx = r, jsx_revision = m, identifyingComment = c\<rparr>))
      | ReturnStatement cs a \<Rightarrow>
          (case first_marker cs of
             None \<Rightarrow> Inr None
           | Some (c, m) \<Rightarrow>
               bind_err (ensure a) (\<lambda>argument.
                 Inr (Some \<lparr>jsx = argument, jsx_revision = m, identifyingComment = c\<rparr>)))
      | _ \<Rightarrow> Inr None)"

text \<open>
  The traversal of \<^verbatim>\<open>tryParseComponentSkeletonFile\<close>: its visitors run on every
  assignment and return statement in the order of the traversal, the node before its
  child nodes, and \<^verbatim>\<open>path.stop()\<close> ends it at the first node that carries the marker.
\<close>

function find_jsx :: "node \<Rightarrow> error + VersionedJsx option"
  and find_jsx_list :: "node list \<Rightarrow> error + VersionedJsx option"
where
  "find_jsx n =
     bind_err (tryExtractPlasmicJsxExpression n) (\<lambda>r.
       case r of Some j \<Rightarrow> Inr (Some j) | None \<Rightarrow> find_jsx_list (sub_nodes n))"
| "find_jsx_list [] = Inr None"
| "find_jsx_list (c # cs) =
     bind_err (find_jsx c) (\<lambda>r.
       case r of Some j \<Rightarrow> Inr (Some j) | None \<Rightarrow> find_jsx_list cs)"
  by pat_completeness auto
termination
proof (relation "measure (\<lambda>x. case x of
          Inl n \<Rightarrow> 4 * size n + 1
        | Inr ns \<Rightarrow> sum_list (map (\<lambda>c. 4 * size c + 2) ns))", goal_cases)
  case 1
  show ?case by simp
next
  case (2 n)
  have le: "sum_list (map (\<lambda>c. 4 * size c + 2) ns) \<le> 4 * size_list size ns"
    for ns :: "node list"
    by (induction ns) auto
  have "sum_list (map (\<lambda>c. 4 * size c + 2) (sub_nodes n)) < 4 * size n + 1"
  proof (cases n)
    case (CallExpression callee args)
    then show ?thesis using le [of args] by simp
  next
    case (JSXElement start nm attributes children closing)
    then show ?thesis using le [of attributes] le [of children] by simp
  next
    case (JSXFragment children)
    then show ?thesis using le [of children] by simp
  next
    case (OtherExpression tag ns)
    then show ?thesis using le [of ns] by simp
  next
    case (OtherNode tag ns)
    then show ?thesis using le [of ns] by simp
  qed (simp_all split: option.splits)
  then show ?case by simp
next
  case 3
  then show ?case by simp
next
  case 4
  then show ?case by simp
qed

fun find_jsx_file :: "File \<Rightarrow> error + VersionedJsx option" where
  "find_jsx_file [] = Inr None"
| "find_jsx_file (ImportStmt d # rest) = find_jsx_file rest"
| "find_jsx_file (Stmt n # rest) =
     bind_err (find_jsx n) (\<lambda>r.
       case r of Some j \<Rightarrow> Inr (Some j) | None \<Rightarrow> find_jsx_file rest)"

text \<open>\<^verbatim>\<open>tryParseComponentSkeletonFile\<close>; \<open>parse\<close> is \<^verbatim>\<open>parser.parse\<close> of \<^verbatim>\<open>@babel/parser\<close> with
  the options of the source, which throws on text that does not parse.\<close>

definition tryParseComponentSkeletonFile ::
  "(string \<Rightarrow> error + File) \<Rightarrow> string \<Rightarrow> error + PlasmicComponentSkeletonFile option"
where
  "tryParseComponentSkeletonFile parse fileContent =
     bind_err (parse fileContent) (\<lambda>file.
     bind_err (find_jsx_file file) (\<lambda>r.
       Inr (map_option (\<lambda>j. VersionedJsx.extend j (PlasmicComponentSkeletonFile.fields file))
              r)))"

subsection \<open>\<^verbatim>\<open>mergeFiles\<close>\<close>

record ComponentSkeletonModel =
  uuid :: string
  nameInIdToUuid :: "(string \<times> string) list"
  fileContent :: string

record ProjectSyncMetadataModel =
  components :: "ComponentSkeletonModel list"

record ComponentInfoForMerge =
  editedFile :: string
  newFile :: string
  newNameInIdToUuid :: "(string \<times> string) list"

text \<open>
  What \<^verbatim>\<open>mergeFiles\<close> takes from outside the sources at hand: the parser of
  \<^verbatim>\<open>@babel/parser\<close>, the constructor of \<^verbatim>\<open>CodeVersion\<close>, the printer \<^verbatim>\<open>code\<close> and the
  formatter \<^verbatim>\<open>formatted\<close> of \<^verbatim>\<open>./utils\<close>, and the two uses of the regular expression
  \<^verbatim>\<open>plasmicManagedRegex\<close>: \<^verbatim>\<open>newFile.match(plasmicManagedRegex)\<close>, which yields the matched
  text if there is a match, and \<^verbatim>\<open>mergedCode.replace(plasmicManagedRegex, fragment)\<close>.
\<close>

record 'id externals =
  parse :: "string \<Rightarrow> error + File"
  newCodeVersion :: "string \<Rightarrow> (string \<times> string) list \<Rightarrow> node \<Rightarrow> error + 'id CodeVersion"
  code :: "File \<Rightarrow> string"
  formatted :: "string \<Rightarrow> string"
  matchManagedRegion :: "string \<Rightarrow> string option"
  replaceManagedRegion :: "string \<Rightarrow> string \<Rightarrow> string"

text \<open>A provider of base metadata; the promise it returns is fulfilled or rejected.\<close>

type_synonym ProjectSyncDataProviderType =
  "string \<Rightarrow> js_number \<Rightarrow> error + ProjectSyncMetadataModel"

text \<open>
  \<^verbatim>\<open>parsedEdited.identifyingComment.value = ...\<close> changes the comment object found by
  \<^verbatim>\<open>tryParseComponentSkeletonFile\<close>: the first marker among the leading comments of the
  first node, in the order of the traversal, that carries one. As a value it is the
  file in which this comment has the new text.
\<close>

fun replace_first_marker :: "string \<Rightarrow> Comment list \<Rightarrow> Comment list" where
  "replace_first_marker v [] = []"
| "replace_first_marker v (c # cs) =
     (if match_managed_jsx (comment_value c) \<noteq> None then Comment v # cs
      else c # replace_first_marker v cs)"

definition markerVisitor :: "string \<Rightarrow> node \<Rightarrow> node \<Rightarrow> node option" where
  "markerVisitor v parent n =
     (case n of
        AssignmentExpression cs l r \<Rightarrow>
          if first_marker cs \<noteq> None
          then Some (AssignmentExpression (replace_first_marker v cs) l r) else None
      | ReturnStatement cs a \<Rightarrow>
          if first_marker cs \<noteq> None
          then Some (ReturnStatement (replace_first_marker v cs) a) else None
      | _ \<Rightarrow> None)"

fun set_marker_file :: "string \<Rightarrow> File \<Rightarrow> File" where
  "set_marker_file v [] = []"
| "set_marker_file v (ImportStmt d # rest) = ImportStmt d # set_marker_file v rest"
| "set_marker_file v (Stmt n # rest) =
     (case markerVisitor v n n of
        Some n' \<Rightarrow> Stmt n' # rest
      | None \<Rightarrow>
          (case traverse_stop (markerVisitor v) n of
             (n', stopped) \<Rightarrow>
               if stopped then Stmt n' # rest else Stmt n' # set_marker_file v rest))"

text \<open>\<^verbatim>\<open>cloneDeepWithHook\<close> on a file.\<close>

fun clone_statement :: "(node \<Rightarrow> node option) \<Rightarrow> statement \<Rightarrow> statement" where
  "clone_statement hook (ImportStmt d) = ImportStmt d"
| "clone_statement hook (Stmt n) = Stmt (cloneDeepWithHook n hook)"

text \<open>
  The body of the loop \<^verbatim>\<open>for (const [componentUuid, parsedEdited] of
  updateableByComponentUuid)\<close>: the merged text of one component. The hook of the clone
  compares objects with \<^verbatim>\<open>parsedEdited.jsx\<close>, the managed markup, which is the only node
  of its value in the file.
\<close>

definition merge_component ::
  "'id externals \<Rightarrow> (string \<times> ComponentInfoForMerge) list \<Rightarrow> string
     \<Rightarrow> ProjectSyncDataProviderType \<Rightarrow> string \<Rightarrow> PlasmicComponentSkeletonFile
     \<Rightarrow> error + string"
where
  "merge_component ext componentByUuid projectId projectSyncDataProvider componentUuid
      parsedEdited =
     bind_err (projectSyncDataProvider projectId (jsx_revision parsedEdited))
       (\<lambda>projectSyncData.
     bind_err (ensure (find (\<lambda>c. uuid c = componentUuid) (components projectSyncData)))
       (\<lambda>baseMetadata.
     bind_err (tryParseComponentSkeletonFile (parse ext) (fileContent baseMetadata))
       (\<lambda>pb.
     bind_err (ensure pb) (\<lambda>parsedBase.
     bind_err (newCodeVersion ext (fileContent baseMetadata) (nameInIdToUuid baseMetadata)
                 (jsx parsedBase)) (\<lambda>baseCodeVersion.
     bind_err (ensure (map_of componentByUuid componentUuid)) (\<lambda>component.
     bind_err (newCodeVersion ext (editedFile component) (nameInIdToUuid baseMetadata)
                 (jsx parsedEdited)) (\<lambda>editedCodeVersion.
     bind_err (tryParseComponentSkeletonFile (parse ext) (newFile component)) (\<lambda>pn.
     bind_err (ensure pn) (\<lambda>parsedNew.
     bind_err (newCodeVersion ext (newFile component) (newNameInIdToUuid component)
                 (jsx parsedNew)) (\<lambda>newCodeVersion.
     bind_err (serializePlasmicASTNode (root newCodeVersion) newCodeVersion
                 editedCodeVersion baseCodeVersion) (\<lambda>newJsx.
       (let marked = set_marker_file
                       ('' plasmic-managed-jsx/'' @ number_text (jsx_revision parsedNew))
                       (parsed_file parsedEdited);
            mergedFile = map (clone_statement
                                (\<lambda>n. if n = jsx parsedEdited then newJsx else None)) marked;
            mergedFile' = mergePlasmicImports mergedFile (parsed_file parsedNew)
                            (parsed_file parsedEdited);
            mergedCode = code ext mergedFile'
        in case matchManagedRegion ext (newFile component) of
             None \<Rightarrow> Inl AssertFailed
           | Some newFragment \<Rightarrow>
               Inr (formatted ext
                      (replaceManagedRegion ext mergedCode newFragment))))))))))))))"

text \<open>The first loop of \<^verbatim>\<open>mergeFiles\<close>, which fills \<^verbatim>\<open>updateableByComponentUuid\<close>, and the
  second, which fills \<^verbatim>\<open>mergedFiles\<close>. A \<^verbatim>\<open>Map\<close> is the list of its entries in the order of
  insertion.\<close>

fun updateable_loop ::
  "'id externals \<Rightarrow> (string \<times> ComponentInfoForMerge) list
     \<Rightarrow> (string \<times> PlasmicComponentSkeletonFile) list
     \<Rightarrow> error + (string \<times> PlasmicComponentSkeletonFile) list"
where
  "updateable_loop ext [] updateableByComponentUuid = Inr updateableByComponentUuid"
| "updateable_loop ext ((u, codeVersions) # rest) updateableByComponentUuid =
     bind_err (tryParseComponentSkeletonFile (parse ext) (editedFile codeVersions))
       (\<lambda>parsedEdited.
          updateable_loop ext rest
            (case parsedEdited of
               Some p \<Rightarrow> map_set u p updateableByComponentUuid
             | None \<Rightarrow> updateableByComponentUuid))"

fun merge_loop ::
  "'id externals \<Rightarrow> (string \<times> ComponentInfoForMerge) list \<Rightarrow> string
     \<Rightarrow> ProjectSyncDataProviderType \<Rightarrow> (string \<times> PlasmicComponentSkeletonFile) list
     \<Rightarrow> (string \<times> string) list \<Rightarrow> error + (string \<times> string) list"
where
  "merge_loop ext componentByUuid projectId provider [] mergedFiles = Inr mergedFiles"
| "merge_loop ext componentByUuid projectId provider ((componentUuid, parsedEdited) # rest)
      mergedFiles =
     bind_err (merge_component ext componentByUuid projectId provider componentUuid
                 parsedEdited)
       (\<lambda>merged. merge_loop ext componentByUuid projectId provider rest
                    (map_set componentUuid merged mergedFiles))"

text \<open>\<^verbatim>\<open>mergeFiles\<close>: \<open>Inr None\<close> is the \<^verbatim>\<open>return;\<close> of the source, which yields
  \<^verbatim>\<open>undefined\<close>; \<open>Inr (Some mergedFiles)\<close> is \<^verbatim>\<open>return mergedFiles\<close>.\<close>

definition mergeFiles ::
  "'id externals \<Rightarrow> (string \<times> ComponentInfoForMerge) list \<Rightarrow> string
     \<Rightarrow> ProjectSyncDataProviderType \<Rightarrow> error + (string \<times> string) list option"
where
  "mergeFiles ext componentByUuid projectId projectSyncDataProvider =
     bind_err (updateable_loop ext componentByUuid []) (\<lambda>updateableByComponentUuid.
       if length updateableByComponentUuid = 0 then Inr None
       else bind_err (merge_loop ext componentByUuid projectId projectSyncDataProvider
                        updateableByComponentUuid [])
              (\<lambda>mergedFiles. Inr (Some mergedFiles)))"

text \<open>
  An example of the outside: the texts \<^verbatim>\<open>edited\<close>, \<^verbatim>\<open>base\<close> and \<^verbatim>\<open>new\<close> parse to files
  that return the paragraph of scenario S6 under a marker, any other text parses to an
  empty file; a version is the example version of the classified paragraph; the
  printer gives \<^verbatim>\<open>new\<close> for the file of the text \<^verbatim>\<open>new\<close>, whatever the offset of its
  element, and the formatter and the managed region are trivial.
\<close>

definition example_file :: "nat \<Rightarrow> string \<Rightarrow> File" where
  "example_file r t =
     [Stmt (OtherNode ''FunctionDeclaration''
        [ReturnStatement [Comment ('' plasmic-managed-jsx/'' @ string_of_nat r)]
           (Some (s6_element t))])]"

fun example_classify :: "node \<Rightarrow> pnode" where
  "example_classify (JSXElement s nm as [JSXText t] c) =
     TagOrComponent (JSXElement s nm as [JSXText t] c) ''P'' (JSXElement s nm as [JSXText t] c)
       [] [TextNode t (JSXText t)]"
| "example_classify n = Opaque n"

definition example_externals :: "string externals" where
  "example_externals =
     \<lparr>parse = (\<lambda>s. Inr (if s = ''edited'' \<or> s = ''base'' then example_file 1 ''hello world''
                        else if s = ''new'' then example_file 2 ''hello'' else [])),
      newCodeVersion = (\<lambda>content m j. Inr (example_version (example_classify j))),
      code = (\<lambda>f. case f of
                    [Stmt (OtherNode tg [ReturnStatement cs (Some (JSXElement s nm as ch c))])] \<Rightarrow>
                      if [Stmt (OtherNode tg
                                  [ReturnStatement cs (Some (JSXElement (Some 0) nm as ch c))])]
                         = example_file 2 ''hello''
                      then ''new'' else ''other''
                  | _ \<Rightarrow> ''other''),
      formatted = (\<lambda>s. s),
      matchManagedRegion = (\<lambda>s. Some []),
      replaceManagedRegion = (\<lambda>s fragment. s)\<rparr>"

definition example_provider :: ProjectSyncDataProviderType where
  "example_provider projectId r =
     Inr \<lparr>components = [\<lparr>uuid = ''u1'', nameInIdToUuid = [], fileContent = ''base''\<rparr>]\<rparr>"

definition example_components :: "(string \<times> ComponentInfoForMerge) list" where
  "example_components =
     [(''u0'', \<lparr>editedFile = ''plain'', newFile = ''new'', newNameInIdToUuid = []\<rparr>),
      (''u1'', \<lparr>editedFile = ''edited'', newFile = ''new'', newNameInIdToUuid = []\<rparr>)]"

subsection \<open>Trees as the parser builds them\<close>

text \<open>
  What the merger may assume of a tree that the parser of \<^verbatim>\<open>plasmic-parser\<close> has
  classified, for a version \<open>V\<close>: the index of the version finds each tag under its own
  id; the tag has one of the two managed shapes; the managed attributes of its element
  are those the predicates of the version announce, and a managed \<^verbatim>\<open>className\<close> call has
  no arguments; the children of the element are the raw nodes of the classified
  children, a bare expression standing in an expression container; an element with
  children has a closing element; and \<^verbatim>\<open>hasShowFuncCall\<close> tells whether the raw node
  contains the visibility call of the tag.
\<close>

definition child_shape :: "pnode \<Rightarrow> node" where
  "child_shape c =
     (let n = rawNode c
      in if isExpression n \<and> \<not> is_jsx_element n \<and> \<not> is_jsx_fragment n
         then JSXExpressionContainer n else n)"

fun jsx_children :: "node \<Rightarrow> node list" where
  "jsx_children (JSXElement _ _ _ children _) = children"
| "jsx_children _ = []"

fun jsx_closing :: "node \<Rightarrow> bool" where
  "jsx_closing (JSXElement _ _ _ _ closing) = closing"
| "jsx_closing _ = False"

fun attr_consistent :: "bool \<Rightarrow> string \<Rightarrow> node \<Rightarrow> bool" where
  "attr_consistent hasProps x (JSXSpreadAttribute (CallExpression callee args)) =
     (if calleeMatch callee helperObject (''props'' @ x) then hasProps else True)"
| "attr_consistent hasProps x (JSXSpreadAttribute _) = True"
| "attr_consistent hasProps x (JSXAttribute (JSXIdentifier name) v) =
     (case (if name = ''className'' then containerCallee v else None) of
        Some callee \<Rightarrow>
          (if calleeMatch callee helperObject (''cls'' @ x)
           then \<not> hasProps \<and> JSXAttribute (JSXIdentifier name) v = classNameAttr x
           else True)
      | None \<Rightarrow> True)"
| "attr_consistent hasProps x _ = False"

definition consistent_tag :: "'id CodeVersion \<Rightarrow> pnode \<Rightarrow> bool" where
  "consistent_tag V n =
     (findNode V (getId V n) = Some n
      \<and> hasPropsIdSpreador V n \<noteq> hasClassNameIdAttr V n
      \<and> is_jsx_element (jsxRaw n)
      \<and> list_all (attr_consistent (hasPropsIdSpreador V n) (nameInId n))
            (jsx_attributes (jsxRaw n))
      \<and> jsx_children (jsxRaw n) = map child_shape (children_of n)
      \<and> (children_of n = [] \<or> jsx_closing (jsxRaw n))
      \<and> hasShowFuncCall V n = contains_call_below (''show'' @ nameInId n) (rawNode n))"

fun consistent :: "'id CodeVersion \<Rightarrow> pnode \<Rightarrow> bool" where
  "consistent V (TagOrComponent raw x j attrs children) =
     (consistent_tag V (TagOrComponent raw x j attrs children)
      \<and> list_all (consistent V) children)"
| "consistent V (Arg a jsxNodes raw) = list_all (consistent V) jsxNodes"
| "consistent V _ = True"

text \<open>No tag of the tree has an opaque child.\<close>

fun no_opaque_children :: "pnode \<Rightarrow> bool" where
  "no_opaque_children (TagOrComponent raw x j attrs children) =
     list_all (\<lambda>c. \<not> is_opaque c \<and> no_opaque_children c) children"
| "no_opaque_children (Arg a jsxNodes raw) = list_all no_opaque_children jsxNodes"
| "no_opaque_children _ = True"

text \<open>An element with an opaque child: \<^verbatim>\<open><p className={rh.clsP()}>{x}</p>\<close>.\<close>

definition opaque_child_element :: "node list \<Rightarrow> node" where
  "opaque_child_element children =
     JSXElement (Some 0) (JSXIdentifier ''p'') [classNameAttr ''P''] children True"

definition opaque_child_tag :: pnode where
  "opaque_child_tag =
     TagOrComponent (opaque_child_element [JSXExpressionContainer (Identifier ''x'')]) ''P''
       (opaque_child_element [JSXExpressionContainer (Identifier ''x'')]) []
       [Opaque (JSXExpressionContainer (Identifier ''x''))]"

text \<open>A tag with an attribute and a child tag,
  \<^verbatim>\<open><div className={rh.clsRoot()} title="t"><p className={rh.clsP()}>hello</p></div>\<close>,
  and a version whose index holds both tags.\<close>

definition nested_child :: node where
  "nested_child =
     JSXElement (Some 30) (JSXIdentifier ''p'') [classNameAttr ''P''] [JSXText ''hello''] True"

definition nested_element :: node where
  "nested_element =
     JSXElement (Some 0) (JSXIdentifier ''div'')
       [classNameAttr ''Root'', JSXAttribute (JSXIdentifier ''title'') (Some (StringLiteral ''t''))]
       [nested_child] True"

definition nested_tag :: pnode where
  "nested_tag =
     TagOrComponent nested_element ''Root'' nested_element
       [PNamed ''title'' (StringLit ''t'' (StringLiteral ''t''))]
       [TagOrComponent nested_child ''P'' nested_child [] [TextNode ''hello'' (JSXText ''hello'')]]"

definition nested_version :: "string CodeVersion" where
  "nested_version =
     \<lparr>findNode = (\<lambda>i. if i = ''Root'' then Some nested_tag
                      else if i = ''P'' then Some (hd (children_of nested_tag)) else None),
      getId = nameInId, getUuid = (\<lambda>x. x), hasClassNameIdAttr = (\<lambda>n. True),
      hasPropsIdSpreador = (\<lambda>n. False), hasShowFuncCall = (\<lambda>n. False), root = nested_tag\<rparr>"

text \<open>\<open>yields_markup res n\<close>: the serializer has returned a node that is deep-equal to \<open>n\<close>,
  comments and \<^verbatim>\<open>start\<close> offsets aside, which is what the two print to.\<close>

definition yields_markup :: "ser_result \<Rightarrow> node \<Rightarrow> bool" where
  "yields_markup res n =
     (case res of
        Inr (Some r) \<Rightarrow> nodesDeepEqualIgnoreComments r n
      | _ \<Rightarrow> False)"

subsection \<open>A file merged with itself\<close>

text \<open>\<open>dbl xs\<close> has each element of \<open>xs\<close> twice, and \<open>no_namespace d\<close> says that the
  declaration \<open>d\<close> has no namespace specifier.\<close>

fun dbl :: "'a list \<Rightarrow> 'a list" where
  "dbl [] = []"
| "dbl (x # xs) = x # x # dbl xs"

definition no_namespace :: "ImportDeclaration \<Rightarrow> bool" where
  "no_namespace d = list_all (\<lambda>s. case s of ImportNamespaceSpecifier _ \<Rightarrow> False | _ \<Rightarrow> True)
                      (specifiers d)"

text \<open>A file with \<^verbatim>\<open>import React from "react"\<close> and the managed import of scenario S7.\<close>

definition self_merge_file :: File where
  "self_merge_file =
     [ImportStmt \<lparr>specifiers = [ImportDefaultSpecifier ''React''], source = ''react'',
                   leadingComments = Some [], trailingComments = []\<rparr>,
      ImportStmt (s7_import [''A'', ''B''])]"

subsection \<open>The import merger on a store of objects\<close>

text \<open>
  The import declarations and the specifiers of the parsed files are objects: the merger
  assigns to their fields and puts references to them into arrays. A store holds the
  declaration objects and the specifier objects. An address is an index into the list of
  the store, and a new object is appended to the list. A declaration object holds the
  addresses of its specifiers; comments are values here.
\<close>

type_synonym addr = nat

record ImportObject =
  obj_specifiers :: "addr list"
  obj_source :: string
  obj_leadingComments :: "Comment list option"
  obj_trailingComments :: "Comment list"

record store =
  declarations :: "ImportObject list"
  specifier_objects :: "specifier list"

text \<open>A statement of \<^verbatim>\<open>program.body\<close> is a reference to a declaration object or another
  statement.\<close>

datatype statement_ref = ImportRef addr | StmtNode node

type_synonym FileRef = "statement_ref list"

text \<open>The declaration that an address stands for, and the file that a body of references
  stands for.\<close>

definition declaration_at :: "store \<Rightarrow> addr \<Rightarrow> ImportDeclaration" where
  "declaration_at st a =
     (let ob = declarations st ! a
      in \<lparr>specifiers = map (\<lambda>s. specifier_objects st ! s) (obj_specifiers ob),
          source = obj_source ob, leadingComments = obj_leadingComments ob,
          trailingComments = obj_trailingComments ob\<rparr>)"

fun statement_at :: "store \<Rightarrow> statement_ref \<Rightarrow> statement" where
  "statement_at st (ImportRef a) = ImportStmt (declaration_at st a)"
| "statement_at st (StmtNode n) = Stmt n"

definition file_at :: "store \<Rightarrow> FileRef \<Rightarrow> File" where
  "file_at st body = map (statement_at st) body"

text \<open>\<^verbatim>\<open>extractPlasmicImports\<close>: \<^verbatim>\<open>node: path.node\<close> is the reference to the declaration.\<close>

fun extractPlasmicImports_st :: "store \<Rightarrow> FileRef \<Rightarrow> addr PlasmicImportSpec list" where
  "extractPlasmicImports_st st [] = []"
| "extractPlasmicImports_st st (ImportRef a # rest) =
     (case tryParsePlasmicImportSpec (declaration_at st a) of
        Some (i, t) \<Rightarrow>
          \<lparr>spec_id = i, spec_type = t, spec_node = a\<rparr> # extractPlasmicImports_st st rest
      | None \<Rightarrow> extractPlasmicImports_st st rest)"
| "extractPlasmicImports_st st (StmtNode _ # rest) = extractPlasmicImports_st st rest"

text \<open>\<^verbatim>\<open>importDecl.node.leadingComments = null\<close>, an assignment to the object.\<close>

definition set_leadingComments_null :: "store \<Rightarrow> addr \<Rightarrow> store" where
  "set_leadingComments_null st a =
     st\<lparr>declarations :=
          (declarations st)[a := (declarations st ! a)\<lparr>obj_leadingComments := None\<rparr>]\<rparr>"

text \<open>\<^verbatim>\<open>cloneDeep(i1)\<close> of lodash: a new declaration object with new copies of its
  specifiers.\<close>

definition cloneDeep_declaration :: "store \<Rightarrow> addr \<Rightarrow> store \<times> addr" where
  "cloneDeep_declaration st a =
     (let ob = declarations st ! a;
          copies = map (\<lambda>s. specifier_objects st ! s) (obj_specifiers ob);
          n = length (specifier_objects st)
      in (st\<lparr>declarations :=
               declarations st @ [ob\<lparr>obj_specifiers := [n ..< n + length copies]\<rparr>],
             specifier_objects := specifier_objects st @ copies\<rparr>,
          length (declarations st)))"

text \<open>\<^verbatim>\<open>cloned.specifiers.push(s2)\<close>: the reference \<open>s2\<close> itself is appended.\<close>

definition push_specifier :: "store \<Rightarrow> addr \<Rightarrow> addr \<Rightarrow> store" where
  "push_specifier st cloned s2 =
     st\<lparr>declarations :=
          (declarations st)[cloned :=
             (declarations st ! cloned)
               \<lparr>obj_specifiers := obj_specifiers (declarations st ! cloned) @ [s2]\<rparr>]\<rparr>"

fun mergeImports_st_loop :: "store \<Rightarrow> addr \<Rightarrow> addr list \<Rightarrow> addr \<Rightarrow> store" where
  "mergeImports_st_loop st i1 [] cloned = st"
| "mergeImports_st_loop st i1 (s2 # rest) cloned =
     (case specifier_objects st ! s2 of
        ImportDefaultSpecifier local2 \<Rightarrow>
          if find (\<lambda>s1. case s1 of ImportDefaultSpecifier local1 \<Rightarrow> local1 = local2
                         | _ \<Rightarrow> False)
               (specifiers (declaration_at st i1)) \<noteq> None
          then mergeImports_st_loop st i1 rest cloned
          else mergeImports_st_loop (push_specifier st cloned s2) i1 rest cloned
      | ImportSpecifier local2 imported2 \<Rightarrow>
          if find (\<lambda>s1. case s1 of
                           ImportSpecifier local1 imported1 \<Rightarrow>
                             local1 = local2 \<and> imported1 = imported2
                         | _ \<Rightarrow> False)
               (specifiers (declaration_at st i1)) \<noteq> None
          then mergeImports_st_loop st i1 rest cloned
          else mergeImports_st_loop (push_specifier st cloned s2) i1 rest cloned
      | ImportNamespaceSpecifier local2 \<Rightarrow>
          mergeImports_st_loop (push_specifier st cloned s2) i1 rest cloned)"

definition mergeImports_st :: "store \<Rightarrow> addr \<Rightarrow> addr \<Rightarrow> store \<times> addr" where
  "mergeImports_st st i1 i2 =
     (case cloneDeep_declaration st i1 of
        (st', cloned) \<Rightarrow>
          (mergeImports_st_loop st' i1 (obj_specifiers (declarations st' ! i2)) cloned,
           cloned))"

text \<open>The \<^verbatim>\<open>while\<close> loop: \<^verbatim>\<open>mergedImports.push(allImports[i].node)\<close> pushes the reference
  held by the entry.\<close>

fun merge_pass_st :: "store \<Rightarrow> addr PlasmicImportSpec list \<Rightarrow> store \<times> addr list" where
  "merge_pass_st st [] = (st, [])"
| "merge_pass_st st [a] = (st, [spec_node a])"
| "merge_pass_st st (a # b # rest) =
     (if compareImports a b = 0
      then (case mergeImports_st st (spec_node a) (spec_node b) of
              (st', c) \<Rightarrow>
                (case merge_pass_st st' rest of (st'', out) \<Rightarrow> (st'', c # out)))
      else (case merge_pass_st st (b # rest) of (st', out) \<Rightarrow> (st', spec_node a # out)))"

fun filter_body_st ::
  "store \<Rightarrow> FileRef \<Rightarrow> int \<Rightarrow> int \<Rightarrow> int \<Rightarrow> FileRef \<times> int \<times> int"
where
  "filter_body_st st [] i firstImport firstPlasmicImport = ([], firstImport, firstPlasmicImport)"
| "filter_body_st st (StmtNode n # rest) i firstImport firstPlasmicImport =
     (case filter_body_st st rest (i + 1) firstImport firstPlasmicImport of
        (kept, fi, fp) \<Rightarrow> (StmtNode n # kept, fi, fp))"
| "filter_body_st st (ImportRef d # rest) i firstImport firstPlasmicImport =
     (let firstImport' = (if firstImport = -1 then i else firstImport)
      in if tryParsePlasmicImportSpec (declaration_at st d) \<noteq> None then
           filter_body_st st rest (i + 1) firstImport'
             (if firstPlasmicImport = -1 then i else firstPlasmicImport)
         else
           (case filter_body_st st rest (i + 1) firstImport' firstPlasmicImport of
              (kept, fi, fp) \<Rightarrow> (ImportRef d # kept, fi, fp)))"

text \<open>\<^verbatim>\<open>mergePlasmicImports(mergedFile, parsedNew, parsedEdited)\<close> on the store: the store
  and the body of the merged file afterwards.\<close>

definition mergePlasmicImports_st ::
  "store \<Rightarrow> FileRef \<Rightarrow> FileRef \<Rightarrow> FileRef \<Rightarrow> store \<times> FileRef"
where
  "mergePlasmicImports_st st mergedFile parsedNew parsedEdited =
     (let newImports = extractPlasmicImports_st st parsedNew;
          editedImports = extractPlasmicImports_st st parsedEdited
      in case filter_body_st st mergedFile 0 (-1) (-1) of
           (body, firstImport, firstPlasmicImport) \<Rightarrow>
             (let allImports = sort_imports (editedImports @ newImports);
                  st1 = foldl (\<lambda>s importDecl. set_leadingComments_null s (spec_node importDecl))
                          st allImports
              in case merge_pass_st st1 allImports of
                   (st2, mergedImports') \<Rightarrow>
                     (let insertMergedImportsAt =
                            (if firstPlasmicImport > -1 then firstPlasmicImport
                             else if firstImport > -1 then firstImport else 0)
                      in (st2,
                          take (nat insertMergedImportsAt) body
                          @ map ImportRef mergedImports'
                          @ drop (nat insertMergedImportsAt) body))))"

text \<open>The managed import declarations of the two input files, by address.\<close>

definition managed_imports :: "store \<Rightarrow> FileRef \<Rightarrow> FileRef \<Rightarrow> addr set" where
  "managed_imports st parsedNew parsedEdited =
     spec_node ` set (extractPlasmicImports_st st parsedEdited @ extractPlasmicImports_st st parsedNew)"

text \<open>
  A store with three declaration objects, each with one named specifier and the leading
  comment \<open>c\<close>: object 0 is \<^verbatim>\<open>import {A} from "m" // plasmic-import: 7\<close> of the edited
  file, object 1 is \<^verbatim>\<open>import {B} from "m" // plasmic-import: i\<close> of the new file, and
  object 2 is the copy of object 0 in the merged file. \<open>merged_store\<close> is the store after
  the merge for \<open>i = 7\<close>, with the new object 3.
\<close>

definition import_object :: "addr \<Rightarrow> string \<Rightarrow> ImportObject" where
  "import_object s i =
     \<lparr>obj_specifiers = [s], obj_source = ''m'', obj_leadingComments = Some [Comment ''c''],
      obj_trailingComments = [Comment ('' plasmic-import: '' @ i)]\<rparr>"

definition example_store :: "string \<Rightarrow> store" where
  "example_store i =
     \<lparr>declarations = [import_object 0 ''7'', import_object 1 i, import_object 2 ''7''],
      specifier_objects =
        [ImportSpecifier ''A'' ''A'', ImportSpecifier ''B'' ''B'', ImportSpecifier ''A'' ''A'']\<rparr>"

definition merged_store :: store where
  "merged_store =
     \<lparr>declarations =
        [(import_object 0 ''7'')\<lparr>obj_leadingComments := None\<rparr>,
         (import_object 1 ''7'')\<lparr>obj_leadingComments := None\<rparr>,
         import_object 2 ''7'',
         (import_object 3 ''7'')\<lparr>obj_specifiers := [3, 1], obj_leadingComments := None\<rparr>],
      specifier_objects =
        [ImportSpecifier ''A'' ''A'', ImportSpecifier ''B'' ''B'', ImportSpecifier ''A'' ''A'',
         ImportSpecifier ''A'' ''A'']\<rparr>"

text \<open>\<open>extends st st'\<close>: the store \<open>st'\<close> has the objects of \<open>st\<close> at their addresses,
  unchanged, and new objects after them.\<close>

definition extends :: "store \<Rightarrow> store \<Rightarrow> bool" where
  "extends st st' =
     (take (length (declarations st)) (declarations st') = declarations st
      \<and> take (length (specifier_objects st)) (specifier_objects st') = specifier_objects st)"

subsection \<open>The store and the values\<close>

text \<open>
  \<open>valid_ref st a\<close>: the address \<open>a\<close> and the addresses of the specifiers of its object
  are addresses of the store; \<open>valid_file\<close> says so of every reference of a body.
  \<open>spec_at st x\<close> is the annotated import \<open>x\<close> with the declaration in the place of its
  address.
\<close>

definition valid_ref :: "store \<Rightarrow> addr \<Rightarrow> bool" where
  "valid_ref st a =
     (a < length (declarations st)
      \<and> list_all (\<lambda>s. s < length (specifier_objects st))
            (obj_specifiers (declarations st ! a)))"

fun valid_statement :: "store \<Rightarrow> statement_ref \<Rightarrow> bool" where
  "valid_statement st (ImportRef a) = valid_ref st a"
| "valid_statement st (StmtNode n) = True"

definition valid_file :: "store \<Rightarrow> FileRef \<Rightarrow> bool" where
  "valid_file st body = list_all (valid_statement st) body"

definition spec_at :: "store \<Rightarrow> addr PlasmicImportSpec \<Rightarrow> ImportDeclaration PlasmicImportSpec"
where
  "spec_at st x =
     \<lparr>spec_id = spec_id x, spec_type = spec_type x,
      spec_node = declaration_at st (spec_node x)\<rparr>"

subsection \<open>\<^verbatim>\<open>makeCachedProjectSyncDataProvider\<close>\<close>

text \<open>
  A provider is a function of the outside world: called with \<open>(projectId, revision)\<close> in
  a world \<open>w\<close> it yields a result and the next world. The closure returned by
  \<^verbatim>\<open>makeCachedProjectSyncDataProvider\<close> owns the array \<^verbatim>\<open>cache\<close>, so a call of it also takes
  and returns the cache. The source reads the cache with \<^verbatim>\<open>find\<close> and has no statement
  that writes it.
\<close>

record ('r, 'm) Entry =
  proejctId :: string
  revision :: 'r
  model :: 'm

type_synonym ('r, 'm, 'w) provider = "string \<Rightarrow> 'r \<Rightarrow> 'w \<Rightarrow> 'm \<times> 'w"

definition cache_init :: "('r, 'm) Entry list" where
  "cache_init = []"

definition cachedProvider ::
  "('r, 'm, 'w) provider \<Rightarrow> string \<Rightarrow> 'r \<Rightarrow> ('r, 'm) Entry list \<times> 'w
     \<Rightarrow> 'm \<times> ('r, 'm) Entry list \<times> 'w"
where
  "cachedProvider rawProvider projectId rv s =
     (case s of (cache, w) \<Rightarrow>
        (case find (\<lambda>ent. proejctId ent = projectId \<and> revision ent = rv) cache of
           Some cached \<Rightarrow> (model cached, cache, w)
         | None \<Rightarrow> (case rawProvider projectId rv w of (m, w') \<Rightarrow> (m, cache, w'))))"

text \<open>A run of calls: the results in order, and the final cache and world.\<close>

fun run_cached ::
  "('r, 'm, 'w) provider \<Rightarrow> (string \<times> 'r) list \<Rightarrow> ('r, 'm) Entry list \<times> 'w
     \<Rightarrow> 'm list \<times> ('r, 'm) Entry list \<times> 'w"
where
  "run_cached rawProvider [] s = ([], s)"
| "run_cached rawProvider ((p, r) # cs) s =
     (case cachedProvider rawProvider p r s of
        (m, s') \<Rightarrow> (case run_cached rawProvider cs s' of (ms, s'') \<Rightarrow> (m # ms, s'')))"

fun run_raw :: "('r, 'm, 'w) provider \<Rightarrow> (string \<times> 'r) list \<Rightarrow> 'w \<Rightarrow> 'm list \<times> 'w" where
  "run_raw rawProvider [] w = ([], w)"
| "run_raw rawProvider ((p, r) # cs) w =
     (case rawProvider p r w of
        (m, w') \<Rightarrow> (case run_raw rawProvider cs w' of (ms, w'') \<Rightarrow> (m # ms, w'')))"

section \<open>Properties\<close>

subsection \<open>The cached provider\<close>

lemma cachedProvider_empty:
  "cachedProvider rawProvider p r ([], w) =
     (fst (rawProvider p r w), [], snd (rawProvider p r w))"
  by (simp add: cachedProvider_def split: prod.splits)

lemma run_cached_empty:
  "run_cached rawProvider cs ([], w) =
     (fst (run_raw rawProvider cs w), [], snd (run_raw rawProvider cs w))"
proof (induction cs arbitrary: w)
  case Nil
  show ?case by simp
next
  case (Cons c cs)
  obtain p r where c: "c = (p, r)" by (cases c)
  show ?case
    by (simp add: c cachedProvider_empty Cons.IH split: prod.splits)
qed

text \<open>
  C10. The provider made by \<^verbatim>\<open>makeCachedProjectSyncDataProvider\<close> behaves as the raw
  provider: from the initial (empty) cache, every call returns what the raw provider
  returns in the same world and moves the world as the raw provider does (the call is
  forwarded), the cache is still empty afterwards, and so any run of calls yields the
  raw provider's results with an empty cache at the end.
\<close>

theorem cached_provider_is_raw_provider:
  "cachedProvider rawProvider p r (cache_init, w) =
     (fst (rawProvider p r w), cache_init, snd (rawProvider p r w))
   \<and> run_cached rawProvider cs (cache_init, w) =
     (fst (run_raw rawProvider cs w), cache_init, snd (run_raw rawProvider cs w))"
  by (simp add: cache_init_def cachedProvider_empty run_cached_empty)

subsection \<open>\<^verbatim>\<open>findMatch\<close>\<close>

text \<open>The loop of \<^verbatim>\<open>findMatch\<close> as two searches from \<open>i\<close>: for a perfect match, and
  for the first node at which \<open>matchingTypeAt\<close> is recorded.\<close>

lemma findMatch_loop_find:
  "findMatch_loop inner perfect outer nodes i m =
     (case first_index_from (\<lambda>ni. inner ni \<and> perfect ni) nodes i of
        Some j \<Rightarrow> Inl j
      | None \<Rightarrow>
          Inr (if m \<noteq> -1 then m
               else (case first_index_from (\<lambda>ni. inner ni \<or> outer) nodes i of
                       Some j \<Rightarrow> int j | None \<Rightarrow> -1)))"
proof (induction inner perfect outer nodes i m rule: findMatch_loop.induct)
  case (1 inner perfect outer nodes i m)
  show ?case
  proof (cases "i < length nodes")
    case False
    then show ?thesis
      by (subst findMatch_loop.simps) (simp add: first_index_from_def)
  next
    case True
    then have upt: "[i..<length nodes] = i # [Suc i..<length nodes]"
      by (simp add: upt_conv_Cons)
    show ?thesis
    proof (cases "inner (nodes ! i)")
      case inner: True
      show ?thesis
      proof (cases "perfect (nodes ! i)")
        case True
        with inner \<open>i < length nodes\<close> show ?thesis
          by (subst findMatch_loop.simps) (simp add: first_index_from_def upt)
      next
        case False
        with inner \<open>i < length nodes\<close> "1.IH"(1)[OF \<open>i < length nodes\<close> refl inner False]
        show ?thesis
          by (subst findMatch_loop.simps)
             (auto simp add: first_index_from_def upt split: option.splits)
      qed
    next
      case False
      with \<open>i < length nodes\<close> "1.IH"(2)[OF \<open>i < length nodes\<close> refl False]
      show ?thesis
        by (subst findMatch_loop.simps)
           (auto simp add: first_index_from_def upt split: option.splits)
    qed
  qed
qed

lemma findMatch_textual:
  assumes "is_textual p"
  shows "findMatch nodes start idm p =
     (case first_index_from (\<lambda>ni. is_textual ni \<and> value_of ni = value_of p) nodes start of
        Some i \<Rightarrow> Perfect i
      | None \<Rightarrow> (case first_index_from is_textual nodes start of
                   Some i \<Rightarrow> TypeMatch i | None \<Rightarrow> NoMatch))"
  using assms
  by (simp add: findMatch_def findMatch_loop_find findMatch_result_def split: option.splits)

lemma findMatch_cond_str_call:
  assumes "is_cond_str_call p" "first_index_from is_cond_str_call nodes start = Some i"
  shows "findMatch nodes start idm p = Perfect i"
proof -
  have "\<not> is_textual p" "\<not> is_arg p"
    using assms(1) by (cases p; simp)+
  then show ?thesis
    using assms
    by (simp add: findMatch_def findMatch_loop_find findMatch_result_def split: option.splits)
qed

text \<open>
  C5, as the code has it. For a probe that is a text or a string literal, \<^verbatim>\<open>findMatch\<close>
  treats the two variants as one class: the result is a perfect match at the first
  index at or after \<open>start\<close> that holds a text or a string literal of the same value;
  when there is none, it is a type match at the first index at or after \<open>start\<close> that
  holds a text or a string literal, and no match when there is none either. For a
  \<^verbatim>\<open>cond-str-call\<close> probe, the first \<^verbatim>\<open>cond-str-call\<close> at or after \<open>start\<close>, when there is one, is
  returned as a perfect match.
\<close>

theorem findMatch_variant_rules:
  "(is_textual p \<longrightarrow>
      findMatch nodes start idm p =
        (case first_index_from (\<lambda>ni. is_textual ni \<and> value_of ni = value_of p) nodes start of
           Some i \<Rightarrow> Perfect i
         | None \<Rightarrow> (case first_index_from is_textual nodes start of
                      Some i \<Rightarrow> TypeMatch i | None \<Rightarrow> NoMatch)))
   \<and> (is_cond_str_call p \<longrightarrow> first_index_from is_cond_str_call nodes start = Some i \<longrightarrow>
        findMatch nodes start idm p = Perfect i)"
  using findMatch_textual findMatch_cond_str_call by blast

theorem findMatch_variant_rules_witness:
  "findMatch [TextNode ''a'' (JSXText ''a''), StringLit ''b'' (StringLiteral ''b'')] 0
      (\<lambda>x y. False) (TextNode ''b'' (JSXText ''b'')) = Perfect 1
   \<and> findMatch [TextNode ''a'' (JSXText ''a''), CondStrCall NullLiteral] 0
      (\<lambda>x y. False) (CondStrCall (Identifier ''c'')) = Perfect 1"
  using findMatch_variant_rules
          [of "TextNode ''b'' (JSXText ''b'')"
              "[TextNode ''a'' (JSXText ''a''), StringLit ''b'' (StringLiteral ''b'')]"
              0 "\<lambda>x y. False" 0]
        findMatch_variant_rules
          [of "CondStrCall (Identifier ''c'')"
              "[TextNode ''a'' (JSXText ''a''), CondStrCall NullLiteral]"
              0 "\<lambda>x y. False" 1]
  by (simp add: first_index_from_def)

text \<open>
  The claim as stated asks a perfect match to have the variant of the probe, and the
  result to be none when no node has the variant of the probe. A text probe matches a
  string literal of the same value perfectly.
\<close>

theorem findMatch_same_variant_counterexample:
  "findMatch [StringLit ''a'' (StringLiteral ''a'')] 0 (\<lambda>x y. False)
      (TextNode ''a'' (JSXText ''a'')) = Perfect 0
   \<and> variant_of (StringLit ''a'' (StringLiteral ''a''))
       \<noteq> variant_of (TextNode ''a'' (JSXText ''a''))"
  by (simp add: findMatch_textual first_index_from_def)

subsection \<open>The children merger\<close>

lemma set_splice_in: "set (splice_in k x xs) = insert x (set xs)"
proof -
  have "set (take k xs) \<union> set (drop k xs) = set xs"
    by (metis append_take_drop_id set_append)
  then show ?thesis by (auto simp: splice_in_def)
qed

lemma insertEditedNodeIntoNew_set:
  "set (merged (insertEditedNodeIntoNew nv ev e prev st))
     = insert (FromEdited, e) (set (merged st))"
  by (simp add: insertEditedNodeIntoNew_def set_splice_in
           split: option.splits MatchResult.splits)

text \<open>What one step and the whole loop add to \<^verbatim>\<open>merged\<close>: only the edited child at
  hand, and only if it is opaque or a text without a perfect match among the base
  children.\<close>

lemma children_step_inserted:
  assumes "oc \<in> set (merged (children_step nv ev bv bcs e prev st))"
  shows "oc \<in> set (merged st)
       \<or> (oc = (FromEdited, e)
          \<and> (is_opaque e
             \<or> is_textual e \<and> \<not> is_perfect (findMatch bcs 0 (idMatch bv ev) e)))"
  using assms
  by (auto simp: children_step_def insertEditedNodeIntoNew_set
           split: if_splits MatchResult.splits)

lemma children_loop_inserted:
  assumes "oc \<in> set (merged (children_loop nv ev bv bcs prev es st))"
  shows "oc \<in> set (merged st)
       \<or> (\<exists>e \<in> set es. oc = (FromEdited, e)
          \<and> (is_opaque e
             \<or> is_textual e \<and> \<not> is_perfect (findMatch bcs 0 (idMatch bv ev) e)))"
  using assms
proof (induction es arbitrary: prev st)
  case Nil
  then show ?case by simp
next
  case (Cons e es)
  from Cons.prems
  have "oc \<in> set (merged (children_loop nv ev bv bcs (Some e) es
                            (children_step nv ev bv bcs e prev st)))"
    by simp
  from Cons.IH [OF this] children_step_inserted [of oc nv ev bv bcs e prev st]
  show ?case by auto
qed

lemma children_step_skips:
  assumes "is_textual c"
    and "\<not> is_perfect (findMatch (map snd (merged st)) (nextInsertStartAt st)
                        (idMatch nv ev) c)"
    and "is_perfect (findMatch bcs 0 (idMatch bv ev) c)"
  shows "children_step nv ev bv bcs c prev st = st"
  using assms by (auto simp: children_step_def split: MatchResult.splits)

lemma merged_list_never_inserts:
  assumes "is_textual c" "is_perfect (findMatch bcs 0 (idMatch bv ev) c)"
  shows "(FromEdited, c) \<notin> set (merged_list nv ev bv ncs ecs bcs)"
proof
  assume "(FromEdited, c) \<in> set (merged_list nv ev bv ncs ecs bcs)"
  from children_loop_inserted [OF this [unfolded merged_list_def]] assms
  show False by (cases c) auto
qed

text \<open>
  C6. An edited child that is a text or a string literal, has no perfect match in
  \<^verbatim>\<open>merged\<close> at or after the cursor and matches a child of the base node perfectly is
  skipped: the step leaves \<^verbatim>\<open>merged\<close> and the cursor as they are. No run of the loop
  inserts a text or string literal that matches a base child perfectly. In scenario S6
  (base and edited \<^verbatim>\<open><p>hello world</p>\<close>, new \<^verbatim>\<open><p>hello</p>\<close>) the merged children
  are the one text \<^verbatim>\<open>hello\<close> and the merged element is the new element.
\<close>

theorem text_deleted_in_new_is_skipped:
  "(is_textual c
      \<and> \<not> is_perfect (findMatch (map snd (merged st)) (nextInsertStartAt st)
                         (idMatch nv ev) c)
      \<and> is_perfect (findMatch bcs 0 (idMatch bv ev) c)
     \<longrightarrow> children_step nv ev bv bcs c prev st = st)
   \<and> (is_textual c \<and> is_perfect (findMatch bcs 0 (idMatch bv ev) c)
     \<longrightarrow> (FromEdited, c) \<notin> set (merged_list nv ev bv ncs ecs bcs))
   \<and> mergedChildren [(TextNode ''hello'' (JSXText ''hello''), Inr (Some (JSXText ''hello'')))]
        (s6_tag ''hello'') (s6_tag ''hello world'') (s6_tag ''hello world'')
        (example_version (s6_tag ''hello'')) (example_version (s6_tag ''hello world''))
        (example_version (s6_tag ''hello world''))
      = Inr [JSXText ''hello'']
   \<and> serializePlasmicASTNode (s6_tag ''hello'') (example_version (s6_tag ''hello''))
        (example_version (s6_tag ''hello world'')) (example_version (s6_tag ''hello world''))
      = Inr (Some (JSXElement None (JSXIdentifier ''p'') [classNameAttr ''P'']
                     [JSXText ''hello''] True))"
proof (intro conjI impI)
  show "mergedChildren [(TextNode ''hello'' (JSXText ''hello''), Inr (Some (JSXText ''hello'')))]
        (s6_tag ''hello'') (s6_tag ''hello world'') (s6_tag ''hello world'')
        (example_version (s6_tag ''hello'')) (example_version (s6_tag ''hello world''))
        (example_version (s6_tag ''hello world''))
      = Inr [JSXText ''hello'']"
    by (simp add: mergedChildren_def merged_list_def s6_tag_def children_step_def
          findMatch_textual first_index_from_def child_output_def lookup_ser_def bind_err_def)
  show "serializePlasmicASTNode (s6_tag ''hello'') (example_version (s6_tag ''hello''))
        (example_version (s6_tag ''hello world'')) (example_version (s6_tag ''hello world''))
      = Inr (Some (JSXElement None (JSXIdentifier ''p'') [classNameAttr ''P'']
                     [JSXText ''hello''] True))"
    by code_simp
qed (auto intro: children_step_skips dest: merged_list_never_inserts)

theorem text_deleted_in_new_is_skipped_witness:
  "children_step (example_version (s6_tag ''hello'')) (example_version (s6_tag ''hello world''))
      (example_version (s6_tag ''hello world'')) [TextNode ''hello world'' (JSXText ''hello world'')]
      (TextNode ''hello world'' (JSXText ''hello world'')) None
      \<lparr>merged = [(FromNew, TextNode ''hello'' (JSXText ''hello''))], nextInsertStartAt = 0\<rparr>
    = \<lparr>merged = [(FromNew, TextNode ''hello'' (JSXText ''hello''))], nextInsertStartAt = 0\<rparr>
   \<and> (FromEdited, TextNode ''hello world'' (JSXText ''hello world''))
       \<notin> set (merged_list (example_version (s6_tag ''hello''))
                (example_version (s6_tag ''hello world''))
                (example_version (s6_tag ''hello world''))
                [TextNode ''hello'' (JSXText ''hello'')]
                [TextNode ''hello world'' (JSXText ''hello world'')]
                [TextNode ''hello world'' (JSXText ''hello world'')])"
  using text_deleted_in_new_is_skipped
          [of "TextNode ''hello world'' (JSXText ''hello world'')"
              "\<lparr>merged = [(FromNew, TextNode ''hello'' (JSXText ''hello''))],
                nextInsertStartAt = 0\<rparr>"
              "example_version (s6_tag ''hello'')"
              "example_version (s6_tag ''hello world'')"
              "[TextNode ''hello world'' (JSXText ''hello world'')]"
              "example_version (s6_tag ''hello world'')"
              None
              "[TextNode ''hello'' (JSXText ''hello'')]"
              "[TextNode ''hello world'' (JSXText ''hello world'')]"]
  by (simp add: findMatch_textual first_index_from_def)

subsection \<open>The attribute merger\<close>

lemma conflictResolution_table:
  "conflictResolution name base edited new = spec_conflict_table name base edited new"
  by (simp add: conflictResolution_def spec_conflict_table_def deq_opt_def
           split: option.splits)

lemma newAttrs_step_in_both:
  assumes "name \<noteq> ''className''" "map_of editedNamed name = Some ea"
  shows "newAttrs_step tbl newNode editedNamed baseNamed (name, na) acc =
     Inr (acc @ (if emits_new (spec_conflict_table name (map_of baseNamed name) ea na)
                 then [na] else []))"
  using assms
  by (simp add: newAttrs_step_def conflictResolution_table emits_new_def Let_def)

lemma edited_attr_step_in_both:
  assumes "name \<noteq> ''className''" "map_of newNamed name = Some na"
  shows "edited_attr_step editedId newId hasProps newNamed baseNamed
           (JSXAttribute (JSXIdentifier name) v) =
     Inr (if emits_edited (spec_conflict_table name (map_of baseNamed name)
                             (JSXAttribute (JSXIdentifier name) v) na)
          then [if startsWith name ''on'' \<and> editedId \<noteq> newId
                then cloneDeepWithHook (JSXAttribute (JSXIdentifier name) v)
                       (renameHandlerHook editedId newId (drop 2 name))
                else JSXAttribute (JSXIdentifier name) v]
          else [])"
  using assms
  by (simp add: edited_attr_step_def emitAttrInEditedNode_def conflictResolution_table
        emits_edited_def Let_def)

text \<open>
  C1, as the code has it. \<^verbatim>\<open>conflictResolution\<close> is the ordered rule list of the
  specification. For a named attribute other than \<^verbatim>\<open>className\<close> that the edited and the
  new element both have, step 1 appends the new attribute exactly when the list says
  emit-new or emit-both, and step 2 emits the edited attribute (with its handler
  reference renamed when the name starts with \<^verbatim>\<open>on\<close> and the ids differ) exactly when
  the list says emit-edited or emit-both. In scenario S4 (base \<^verbatim>\<open>title="a"\<close>, edited
  \<^verbatim>\<open>title="b"\<close>, new \<^verbatim>\<open>title="c"\<close>) the merged attributes are the new title, the managed
  class attribute and the edited title, in this order.
\<close>

theorem conflict_table_for_named_attributes:
  "conflictResolution name base ea na = spec_conflict_table name base ea na
   \<and> (name \<noteq> ''className'' \<and> map_of editedNamed name = Some ea \<longrightarrow>
        newAttrs_step tbl newNode editedNamed baseNamed (name, na) acc =
          Inr (acc @ (if emits_new (spec_conflict_table name (map_of baseNamed name) ea na)
                      then [na] else [])))
   \<and> (name \<noteq> ''className'' \<and> map_of newNamed name = Some na \<longrightarrow>
        edited_attr_step editedId newId hasProps newNamed baseNamed
            (JSXAttribute (JSXIdentifier name) v) =
          Inr (if emits_edited (spec_conflict_table name (map_of baseNamed name)
                                  (JSXAttribute (JSXIdentifier name) v) na)
               then [if startsWith name ''on'' \<and> editedId \<noteq> newId
                     then cloneDeepWithHook (JSXAttribute (JSXIdentifier name) v)
                            (renameHandlerHook editedId newId (drop 2 name))
                     else JSXAttribute (JSXIdentifier name) v]
               else []))
   \<and> mergeAttributes [] (s4_tag ''c'') (s4_tag ''b'') (s4_tag ''a'')
        (example_version (s4_tag ''c''))
      = Inr [JSXAttribute (JSXIdentifier ''title'') (Some (StringLiteral ''c'')),
             classNameAttr ''Root'',
             JSXAttribute (JSXIdentifier ''title'') (Some (StringLiteral ''b''))]
   \<and> serializePlasmicASTNode (s4_tag ''c'') (example_version (s4_tag ''c''))
        (example_version (s4_tag ''b'')) (example_version (s4_tag ''a''))
      = Inr (Some (JSXElement None (JSXIdentifier ''div'')
               [JSXAttribute (JSXIdentifier ''title'') (Some (StringLiteral ''c'')),
                classNameAttr ''Root'',
                JSXAttribute (JSXIdentifier ''title'') (Some (StringLiteral ''b''))]
               [] False))"
proof (intro conjI impI)
  show "mergeAttributes [] (s4_tag ''c'') (s4_tag ''b'') (s4_tag ''a'')
        (example_version (s4_tag ''c''))
      = Inr [JSXAttribute (JSXIdentifier ''title'') (Some (StringLiteral ''c'')),
             classNameAttr ''Root'',
             JSXAttribute (JSXIdentifier ''title'') (Some (StringLiteral ''b''))]"
    by code_simp
  show "serializePlasmicASTNode (s4_tag ''c'') (example_version (s4_tag ''c''))
        (example_version (s4_tag ''b'')) (example_version (s4_tag ''a''))
      = Inr (Some (JSXElement None (JSXIdentifier ''div'')
               [JSXAttribute (JSXIdentifier ''title'') (Some (StringLiteral ''c'')),
                classNameAttr ''Root'',
                JSXAttribute (JSXIdentifier ''title'') (Some (StringLiteral ''b''))]
               [] False))"
    by code_simp
qed (simp_all add: conflictResolution_table newAttrs_step_in_both edited_attr_step_in_both)

theorem conflict_table_for_named_attributes_witness:
  "newAttrs_step [] (s4_tag ''c'')
      [(''title'', JSXAttribute (JSXIdentifier ''title'') (Some (StringLiteral ''b'')))]
      [(''title'', JSXAttribute (JSXIdentifier ''title'') (Some (StringLiteral ''a'')))]
      (''title'', JSXAttribute (JSXIdentifier ''title'') (Some (StringLiteral ''c''))) []
     = Inr [JSXAttribute (JSXIdentifier ''title'') (Some (StringLiteral ''c''))]
   \<and> edited_attr_step ''Root'' ''Root'' False
      [(''title'', JSXAttribute (JSXIdentifier ''title'') (Some (StringLiteral ''c'')))]
      [(''title'', JSXAttribute (JSXIdentifier ''title'') (Some (StringLiteral ''a'')))]
      (JSXAttribute (JSXIdentifier ''title'') (Some (StringLiteral ''b'')))
     = Inr [JSXAttribute (JSXIdentifier ''title'') (Some (StringLiteral ''b''))]"
  using conflict_table_for_named_attributes
          [of "''title''" "Some (JSXAttribute (JSXIdentifier ''title'') (Some (StringLiteral ''a'')))"
              "JSXAttribute (JSXIdentifier ''title'') (Some (StringLiteral ''b''))"
              "JSXAttribute (JSXIdentifier ''title'') (Some (StringLiteral ''c''))"
              "[(''title'', JSXAttribute (JSXIdentifier ''title'') (Some (StringLiteral ''b'')))]"
              "[]" "s4_tag ''c''"
              "[(''title'', JSXAttribute (JSXIdentifier ''title'') (Some (StringLiteral ''a'')))]"
              "[]"
              "[(''title'', JSXAttribute (JSXIdentifier ''title'') (Some (StringLiteral ''c'')))]"
              "''Root''" "''Root''" False "Some (StringLiteral ''b'')"]
  by (simp add: spec_conflict_table_def deq_opt_def nodesDeepEqualIgnoreComments_def
        emits_new_def emits_edited_def startsWith_def)

text \<open>
  The claim as stated covers every named attribute. With base and new
  \<^verbatim>\<open>className={rh.clsRoot()}\<close> and edited \<^verbatim>\<open>className={rh.clsRoot("x")}\<close> the rule list says
  emit-edited, and the merger emits the managed attribute without the argument.
\<close>

theorem className_not_by_table_counterexample:
  "spec_conflict_table ''className''
      (Some (hd (jsx_attributes (cls_args_element []))))
      (hd (jsx_attributes (cls_args_element [StringLiteral ''x''])))
      (hd (jsx_attributes (cls_args_element []))) = EmitEdited
   \<and> mergeAttributes [] (cls_args_tag []) (cls_args_tag [StringLiteral ''x''])
        (cls_args_tag []) (example_version (cls_args_tag []))
      = Inr [classNameAttr ''Root'']
   \<and> hd (jsx_attributes (cls_args_element [StringLiteral ''x''])) \<noteq> classNameAttr ''Root''"
  by code_simp

subsection \<open>Renaming of event handlers\<close>

lemma memberExpressionMatch_iff:
  "memberExpressionMatch n obj name = (n = MemberExpression (Identifier obj) (Identifier name))"
  by (induction n obj name rule: memberExpressionMatch.induct) auto

lemma clone_Identifier:
  "cloneDeepWithHook x (renameHandlerHook e n' ev) = Identifier s \<Longrightarrow> x = Identifier s"
  by (cases x)
     (auto simp: with_hook_def renameHandlerHook_def makeMemberExpression_def
           memberExpressionMatch_iff split: if_splits)

lemma no_ref_after_rename:
  assumes "e \<noteq> n'"
  shows "\<not> contains_member_ref (''on'' @ e @ ev)
           (cloneDeepWithHook x (renameHandlerHook e n' ev))"
proof (induction x)
  case (MemberExpression ob pr)
  let ?h = "renameHandlerHook e n' ev"
  show ?case
  proof (cases "?h (MemberExpression ob pr)")
    case (Some r)
    then have "r = makeMemberExpression helperObject (''on'' @ n' @ ev)"
      by (simp add: renameHandlerHook_def split: if_splits)
    with Some assms show ?thesis
      by (simp add: with_hook_def makeMemberExpression_def memberExpressionMatch_iff
            contains_member_ref.simps [of _ "MemberExpression _ _"]
            contains_member_ref.simps [of _ "Identifier _"])
  next
    case None
    then have nomatch: "MemberExpression ob pr
        \<noteq> MemberExpression (Identifier helperObject) (Identifier (''on'' @ e @ ev))"
      by (simp add: renameHandlerHook_def memberExpressionMatch_iff split: if_splits)
    have "MemberExpression (cloneDeepWithHook ob ?h) (cloneDeepWithHook pr ?h)
        \<noteq> MemberExpression (Identifier helperObject) (Identifier (''on'' @ e @ ev))"
      using nomatch by (auto dest: clone_Identifier)
    with None MemberExpression show ?thesis
      by (simp add: with_hook_def memberExpressionMatch_iff
            contains_member_ref.simps [of _ "MemberExpression _ _"])
  qed
qed (auto simp: with_hook_def renameHandlerHook_def memberExpressionMatch_iff
      makeMemberExpression_def
      contains_member_ref.simps [of _ "Identifier _"]
      contains_member_ref.simps [of _ "StringLiteral _"]
      contains_member_ref.simps [of _ "BooleanLiteral _"]
      contains_member_ref.simps [of _ "NullLiteral"]
      contains_member_ref.simps [of _ "CallExpression _ _"]
      contains_member_ref.simps [of _ "LogicalExpression _ _ _"]
      contains_member_ref.simps [of _ "JSXText _"]
      contains_member_ref.simps [of _ "JSXExpressionContainer _"]
      contains_member_ref.simps [of _ "JSXAttribute _ _"]
      contains_member_ref.simps [of _ "JSXSpreadAttribute _"]
      contains_member_ref.simps [of _ "JSXElement _ _ _ _ _"]
      contains_member_ref.simps [of _ "JSXFragment _"]
      contains_member_ref.simps [of _ "AssignmentExpression _ _ _"]
      contains_member_ref.simps [of _ "ReturnStatement _ _"]
      contains_member_ref.simps [of _ "OtherExpression _ _"]
      contains_member_ref.simps [of _ "OtherNode _ _"]
      list_ex_iff split: option.splits)

text \<open>
  C4, as the code has it. When the new element has the attribute too, the name starts
  with \<^verbatim>\<open>on\<close> and the ids differ, an emitted attribute is the clone of the edited one in
  which every reference \<^verbatim>\<open>rh.on<editedId><Event>\<close>, \<^verbatim>\<open><Event>\<close> being the attribute's name
  after \<^verbatim>\<open>on\<close>, is replaced by \<^verbatim>\<open>rh.on<newId><Event>\<close>; no such reference remains. An
  attribute that neither the new nor the base element has is emitted as it is.
\<close>

theorem handler_rename_in_emitted_attribute:
  "(map_of newNamed name = Some na \<and> startsWith name ''on'' \<and> editedId \<noteq> newId
      \<and> emitAttrInEditedNode editedId newId newNamed baseNamed name ea = Some out
     \<longrightarrow> out = cloneDeepWithHook ea (renameHandlerHook editedId newId (drop 2 name))
        \<and> \<not> contains_member_ref (''on'' @ editedId @ drop 2 name) out)
   \<and> (map_of newNamed name = None \<and> map_of baseNamed name = None
     \<longrightarrow> emitAttrInEditedNode editedId newId newNamed baseNamed name ea = Some ea)"
proof (intro conjI impI)
  assume a: "map_of newNamed name = Some na \<and> startsWith name ''on'' \<and> editedId \<noteq> newId
      \<and> emitAttrInEditedNode editedId newId newNamed baseNamed name ea = Some out"
  then show "out = cloneDeepWithHook ea (renameHandlerHook editedId newId (drop 2 name))"
    by (auto simp: emitAttrInEditedNode_def Let_def split: if_splits)
  with a no_ref_after_rename [of editedId newId "drop 2 name" ea]
  show "\<not> contains_member_ref (''on'' @ editedId @ drop 2 name) out"
    by blast
next
  assume "map_of newNamed name = None \<and> map_of baseNamed name = None"
  then show "emitAttrInEditedNode editedId newId newNamed baseNamed name ea = Some ea"
    by (simp add: emitAttrInEditedNode_def)
qed

theorem handler_rename_in_emitted_attribute_witness:
  "emitAttrInEditedNode ''Old'' ''New''
      [(''onClick'', JSXAttribute (JSXIdentifier ''onClick'') None)]
      [(''onClick'', JSXAttribute (JSXIdentifier ''onClick'') None)] ''onClick'' onClick_old
     = Some (JSXAttribute (JSXIdentifier ''onClick'')
              (Some (JSXExpressionContainer (makeMemberExpression helperObject ''onNewClick''))))
   \<and> \<not> contains_member_ref ''onOldClick''
         (JSXAttribute (JSXIdentifier ''onClick'')
            (Some (JSXExpressionContainer (makeMemberExpression helperObject ''onNewClick''))))
   \<and> emitAttrInEditedNode ''Old'' ''New'' [] [] ''onClick'' onClick_old = Some onClick_old"
proof -
  have e: "emitAttrInEditedNode ''Old'' ''New''
      [(''onClick'', JSXAttribute (JSXIdentifier ''onClick'') None)]
      [(''onClick'', JSXAttribute (JSXIdentifier ''onClick'') None)] ''onClick'' onClick_old
     = Some (JSXAttribute (JSXIdentifier ''onClick'')
              (Some (JSXExpressionContainer (makeMemberExpression helperObject ''onNewClick''))))"
    by code_simp
  let ?new = "[(''onClick'', JSXAttribute (JSXIdentifier ''onClick'') None)]"
  let ?out = "JSXAttribute (JSXIdentifier ''onClick'')
       (Some (JSXExpressionContainer (makeMemberExpression helperObject ''onNewClick'')))"
  have h: "map_of ?new ''onClick'' = Some (JSXAttribute (JSXIdentifier ''onClick'') None)
      \<and> startsWith ''onClick'' ''on'' \<and> ''Old'' \<noteq> ''New''
      \<and> emitAttrInEditedNode ''Old'' ''New'' ?new ?new ''onClick'' onClick_old = Some ?out"
    using e by (simp add: startsWith_def)
  have "\<not> contains_member_ref (''on'' @ ''Old'' @ drop 2 ''onClick'') ?out"
    using handler_rename_in_emitted_attribute
            [of ?new "''onClick''" "JSXAttribute (JSXIdentifier ''onClick'') None"
                "''Old''" "''New''" ?new onClick_old ?out]
          h
    by blast
  then have r: "\<not> contains_member_ref ''onOldClick'' ?out"
    by simp
  have "map_of ([] :: (string \<times> node) list) ''onClick'' = None
      \<and> map_of ([] :: (string \<times> node) list) ''onClick'' = None"
    by simp
  with handler_rename_in_emitted_attribute
         [of "[]" "''onClick''" na "''Old''" "''New''" "[]" onClick_old out for na out]
  have "emitAttrInEditedNode ''Old'' ''New'' [] [] ''onClick'' onClick_old = Some onClick_old"
    by blast
  with e r show ?thesis by simp
qed

text \<open>
  The claim as stated includes handlers that the developer added. With new
  \<^verbatim>\<open><div className={rh.clsNew()}/>\<close>, base \<^verbatim>\<open><div className={rh.clsOld()}/>\<close> and edited
  \<^verbatim>\<open><div className={rh.clsOld()} onClick={rh.onOldClick}/>\<close> the merger emits the handler
  with the reference to the old id.
\<close>

theorem added_handler_not_renamed_counterexample:
  "mergeAttributes [] (attrs_tag ''New'' []) (attrs_tag ''Old'' [onClick_old])
      (attrs_tag ''Old'' []) (example_version (attrs_tag ''New'' []))
     = Inr [classNameAttr ''New'', onClick_old]
   \<and> contains_member_ref ''onOldClick'' onClick_old"
  by code_simp

subsection \<open>The visibility reconciler\<close>

lemma showCallVisitor_hook:
  "showCallVisitor N e n' c = Inr (showHook N (''show'' @ e) (''show'' @ n') c)"
  by (cases c)
     (auto simp: showCallVisitor_def calleeMatch_def memberExpressionMatch_iff
        makeMemberExpression_def)

lemma showHook_None_iff: "showHook N old new c = None \<longleftrightarrow> \<not> is_call_of old c"
  by (cases c) (auto simp: calleeMatch_def memberExpressionMatch_iff makeMemberExpression_def)

lemma with_sub_nodes_id: "with_sub_nodes n (sub_nodes n) = n"
  by (cases n) (auto split: option.splits)

lemma cloneDeepWithHook_unfold:
  "cloneDeepWithHook n h =
     with_hook h n (with_sub_nodes n (map (\<lambda>c. cloneDeepWithHook c h) (sub_nodes n)))"
  by (cases n) (auto simp: with_hook_def split: option.splits)

text \<open>The first traversal of \<^verbatim>\<open>mergeShowFunc\<close> never fails; its tree is the rewrite by the
  hook and its flag says whether the tree had a call below its root.\<close>

lemma traverse_hook:
  assumes v: "\<And>c. v c = Inr (showHook N old new c)"
  shows "traverse_replace v x =
     Inr (rewrite_below (showHook N old new) x, contains_call_below old x)"
    and "traverse_replace_list v cs =
     Inr (map (\<lambda>c. cloneDeepWithHook c (showHook N old new)) cs,
          list_ex (contains_call old) cs)"
  using v
proof (induction v x and v cs rule: traverse_replace_traverse_replace_list.induct)
  case (1 v n)
  then show ?case
    by (simp add: bind_err_def rewrite_below_def contains_call_below_def)
next
  case 2
  show ?case by simp
next
  case (3 v c cs)
  have vc: "v c = Inr (showHook N old new c)"
    by (rule "3.prems")
  have t2: "traverse_replace_list v cs =
        Inr (map (\<lambda>c. cloneDeepWithHook c (showHook N old new)) cs,
             list_ex (contains_call old) cs)"
    using "3.prems" vc by (intro "3.IH"(2)) auto
  show ?case
  proof (cases "showHook N old new c")
    case None
    then have nc: "\<not> is_call_of old c" by (simp add: showHook_None_iff)
    have t1: "traverse_replace v c =
        Inr (rewrite_below (showHook N old new) c, contains_call_below old c)"
      using "3.prems" vc None by (intro "3.IH"(1)) auto
    show ?thesis
      using None nc
      by (simp add: vc t1 t2 cloneDeepWithHook_unfold [of c] contains_call.simps [of _ c]
            bind_err_def with_hook_def rewrite_below_def contains_call_below_def
          del: traverse_replace.simps)
  next
    case (Some r)
    then have c: "is_call_of old c"
      using showHook_None_iff [of N old new c] by simp
    show ?thesis
      using Some c
      by (simp add: vc t2 cloneDeepWithHook_unfold [of c] contains_call.simps [of _ c]
            bind_err_def with_hook_def del: traverse_replace.simps)
  qed
qed

lemma clone_no_call:
  "\<not> contains_call old c \<Longrightarrow> cloneDeepWithHook c (showHook N old new) = c"
proof (induction old c rule: contains_call.induct)
  case (1 old c)
  from "1.prems" have nc: "\<not> is_call_of old c"
    and sub: "\<And>x. x \<in> set (sub_nodes c) \<Longrightarrow> \<not> contains_call old x"
    by (auto simp: contains_call.simps [of _ c] list_ex_iff)
  from nc have "showHook N old new c = None" by (simp add: showHook_None_iff)
  moreover
  have "map (\<lambda>x. cloneDeepWithHook x (showHook N old new)) (sub_nodes c) = sub_nodes c"
    using "1.IH" sub by (simp add: map_idI)
  ultimately show ?case
    by (simp add: cloneDeepWithHook_unfold [of c] with_hook_def with_sub_nodes_id)
qed

lemma rewrite_below_id:
  "\<not> contains_call_below old x \<Longrightarrow> rewrite_below (showHook N old new) x = x"
  by (simp add: rewrite_below_def contains_call_below_def list_ex_iff clone_no_call map_idI
        with_sub_nodes_id)

lemma mergeShowFunc_cases:
  "mergeShowFunc newNode editedNode nv clone =
     (let e = nameInId editedNode; n' = nameInId newNode; N = hasShowFuncCall nv newNode;
          E = contains_call_below (''show'' @ e) clone in
      if E then Inr (rewrite_below (showHook N (''show'' @ e) (''show'' @ n')) clone)
      else if N then
        (if rawNode editedNode = jsxRaw editedNode then
           (if is_jsx_element clone then Inr (makeJsxElementWithShowCall clone n')
            else Inl AssertFailed)
         else Inr (fst (traverse_stop (wrapVisitor (jsx_start (jsxRaw editedNode)) n') clone)))
      else Inr clone)"
proof -
  have t: "traverse_replace
             (showCallVisitor (hasShowFuncCall nv newNode) (nameInId editedNode)
                (nameInId newNode)) clone =
           Inr (rewrite_below
                  (showHook (hasShowFuncCall nv newNode) (''show'' @ nameInId editedNode)
                     (''show'' @ nameInId newNode)) clone,
                contains_call_below (''show'' @ nameInId editedNode) clone)"
    by (rule traverse_hook(1) [OF showCallVisitor_hook])
  show ?thesis
    unfolding mergeShowFunc_def Let_def t
    by (simp add: bind_err_def rewrite_below_id del: append.simps)
qed

text \<open>
  The second traversal of \<^verbatim>\<open>mergeShowFunc\<close> changes nothing when no element below the
  root has the \<^verbatim>\<open>start\<close> it looks for. The clone that the serializer makes of the edited
  element has no \<^verbatim>\<open>start\<close>, so the traversal can only find another element.
\<close>

lemma wrap_without_match:
  shows "\<not> list_ex (element_at s) (sub_nodes n)
           \<Longrightarrow> traverse_stop (wrapVisitor s x) n = (n, False)"
    and "\<not> list_ex (element_at s) cs
           \<Longrightarrow> traverse_stop_list (wrapVisitor s x) parent cs = (cs, False)"
proof (induction "wrapVisitor s x" n and "wrapVisitor s x" parent cs
       rule: traverse_stop_traverse_stop_list.induct)
  case (1 n)
  then show ?case by (simp add: with_sub_nodes_id)
next
  case (2 parent)
  show ?case by simp
next
  case (3 parent c cs)
  from "3.prems" have c: "\<not> element_at s c" and cs: "\<not> list_ex (element_at s) cs"
    by simp_all
  from c have v: "wrapVisitor s x parent c = None"
    and sub: "\<not> list_ex (element_at s) (sub_nodes c)"
    by (auto simp: element_at.simps [of s c] wrapVisitor_def)
  from "3.hyps"(1) [OF v sub] have t: "traverse_stop (wrapVisitor s x) c = (c, False)" .
  from "3.hyps"(2) [OF v t [symmetric] _ cs]
  have "traverse_stop_list (wrapVisitor s x) parent cs = (cs, False)" by simp
  with v t show ?case by simp
qed

lemma withMergedParts_start:
  "withMergedParts j attributes children = Inr j' \<Longrightarrow> jsx_start j' = None"
  by (cases j) auto

lemma mergeShowFunc_without_match:
  assumes "\<not> contains_call_below (''show'' @ nameInId editedNode) clone"
    and "hasShowFuncCall nv newNode"
    and "rawNode editedNode \<noteq> jsxRaw editedNode"
    and "\<not> list_ex (element_at (jsx_start (jsxRaw editedNode))) (sub_nodes clone)"
  shows "mergeShowFunc newNode editedNode nv clone = Inr clone"
proof -
  from assms(4)
  have "traverse_stop (wrapVisitor (jsx_start (jsxRaw editedNode)) (nameInId newNode)) clone
        = (clone, False)"
    by (rule wrap_without_match(1))
  with assms(1-3) show ?thesis
    by (simp add: mergeShowFunc_cases Let_def del: append.simps traverse_stop.simps)
qed

text \<open>
  C7. On the path of the serializer \<^verbatim>\<open>mergeShowFunc\<close> follows the table where the edited
  node has the visibility call (\<open>E\<close> and \<open>N\<close>: the call is renamed; \<open>E\<close> and not \<open>N\<close>: the call
  becomes the literal \<^verbatim>\<open>true\<close>), where neither node has it (the clone is unchanged), and
  where the edited node is the element itself (not \<open>E\<close> and \<open>N\<close>: the result is
  \<^verbatim>\<open>rh.show<newNameInId>() && <edited>\<close>). Where the edited node is an expression around
  the element, not \<open>E\<close> and \<open>N\<close>, the table wraps the element inside the clone. The code
  looks for the element by the \<^verbatim>\<open>start\<close> of the edited element, the clone that
  \<^verbatim>\<open>babel.types.cloneDeep\<close> made of it has no \<^verbatim>\<open>start\<close>, and no call is added: for the edited
  \<^verbatim>\<open>c ? <Row/> : null\<close> and the new \<^verbatim>\<open>rh.showNew() && <Row/>\<close> the serializer returns
  \<^verbatim>\<open>c ? <Row/> : null\<close>, and likewise inside a fragment. On a clone that has kept the
  \<^verbatim>\<open>start\<close>, \<^verbatim>\<open>mergeShowFunc\<close> wraps the element as the table says.
\<close>

theorem visibility_call_lost_inside_expression:
  "serialize_row True True (shown ''Old'') = Inr (Some (shown ''New'' (row_at ''New'' None)))
   \<and> serialize_row False True (shown ''Old'')
     = Inr (Some (LogicalExpression ''&&'' (BooleanLiteral True) (row_at ''New'' None)))
   \<and> serialize_row True False (\<lambda>e. e) = Inr (Some (shown ''New'' (row_at ''New'' None)))
   \<and> serialize_row False False conditional = Inr (Some (conditional (row_at ''New'' None)))
   \<and> serialize_row True False conditional = Inr (Some (conditional (row_at ''New'' None)))
   \<and> serialize_row True False conditional
     \<noteq> Inr (Some (conditional (shown ''New'' (row_at ''New'' None))))
   \<and> \<not> contains_call ''showNew'' (conditional (row_at ''New'' None))
   \<and> serialize_row True False (\<lambda>e. JSXFragment [e])
     = Inr (Some (JSXFragment [row_at ''New'' None]))
   \<and> mergeShowFunc (new_row True) (edited_row conditional) (show_version True (new_row True))
       (conditional (row_at ''New'' (Some 5)))
     = Inr (conditional (shown ''New'' (row_at ''New'' (Some 5))))
   \<and> mergeShowFunc (new_row True) (edited_row (\<lambda>e. JSXFragment [e]))
       (show_version True (new_row True)) (JSXFragment [row_at ''New'' (Some 5)])
     = Inr (JSXFragment [JSXExpressionContainer (shown ''New'' (row_at ''New'' (Some 5)))])"
  by (intro conjI; code_simp)

subsection \<open>The import merger\<close>

lemma find_default:
  "(find (\<lambda>s1. case s1 of ImportDefaultSpecifier local1 \<Rightarrow> local1 = l | _ \<Rightarrow> False) xs \<noteq> None)
     = (ImportDefaultSpecifier l \<in> set xs)"
  by (induction xs) (auto split: specifier.splits)

lemma find_named:
  "(find (\<lambda>s1. case s1 of ImportSpecifier local1 imported1 \<Rightarrow> local1 = l \<and> imported1 = i
                | _ \<Rightarrow> False) xs \<noteq> None)
     = (ImportSpecifier l i \<in> set xs)"
  by (induction xs) (auto split: specifier.splits)

lemma mergeImports_loop_spec:
  "mergeImports_loop i1 ss cloned =
     cloned\<lparr>specifiers := specifiers cloned @ filter (\<lambda>s. \<not> already_has i1 s) ss\<rparr>"
  by (induction i1 ss cloned rule: mergeImports_loop.induct)
     (simp_all only: mergeImports_loop.simps find_default find_named, simp_all)

lemma mergeImports_spec:
  "mergeImports a b = a\<lparr>specifiers := mergeSpecifiers a b\<rparr>"
  by (simp add: mergeImports_def mergeImports_loop_spec mergeSpecifiers_def)

lemma compareImports_le: "compareImports a b \<le> 0 \<longleftrightarrow> spec_key a \<le> spec_key b"
  by (auto simp: compareImports_def spec_key_def less_eq_prod_def split: option.splits)

lemma compareImports_eq: "compareImports a b = 0 \<longleftrightarrow> spec_key a = spec_key b"
  by (auto simp: compareImports_def spec_key_def split: option.splits)

lemma insort_imports_key: "insort_imports x ys = insort_key spec_key x ys"
  by (induction ys) (simp_all add: compareImports_le)

lemma sort_imports_key: "sort_imports xs = sort_key spec_key xs"
  unfolding sort_imports_def sort_key_def
  by (induction xs) (simp_all add: insort_imports_key)


lemma extract_ok: "s \<in> set (extractPlasmicImports body) \<Longrightarrow> spec_ok s"
  by (induction body rule: extractPlasmicImports.induct)
     (auto simp: spec_ok_def import_key_def spec_key_def split: option.splits)

lemma dropLeadingComments_key [simp]: "spec_key (dropLeadingComments s) = spec_key s"
  by (simp add: dropLeadingComments_def spec_key_def)

lemma dropLeadingComments_ok: "spec_ok s \<Longrightarrow> spec_ok (dropLeadingComments s)"
  by (simp add: spec_ok_def import_key_def tryParsePlasmicImportSpec_def dropLeadingComments_def
        spec_key_def)

lemma mergeImports_key: "import_key (mergeImports a b) = import_key a"
  by (simp add: mergeImports_spec import_key_def tryParsePlasmicImportSpec_def)

lemma merge_pass_keys_subset:
  assumes "\<forall>s \<in> set xs. spec_ok s"
  shows "set (map import_key (merge_pass xs)) \<subseteq> Some ` spec_key ` set xs"
  using assms
  by (induction xs rule: merge_pass.induct) (auto simp: spec_ok_def mergeImports_key)

lemma merge_pass_keys_supset:
  assumes "\<forall>s \<in> set xs. spec_ok s"
  shows "Some ` spec_key ` set xs \<subseteq> set (map import_key (merge_pass xs))"
  using assms
  by (induction xs rule: merge_pass.induct)
     (auto simp: spec_ok_def mergeImports_key compareImports_eq)

lemma merge_pass_distinct:
  assumes "\<forall>s \<in> set xs. spec_ok s"
    and "sorted (map spec_key xs)"
    and "\<forall>k. length (filter (\<lambda>s. spec_key s = k) xs) \<le> 2"
  shows "distinct (map import_key (merge_pass xs))"
  using assms
proof (induction xs rule: merge_pass.induct)
  case 1
  show ?case by simp
next
  case (2 a)
  show ?case by simp
next
  case (3 a b rest)
  show ?case
  proof (cases "compareImports a b = 0")
    case True
    then have ab: "spec_key a = spec_key b" by (simp add: compareImports_eq)
    have ok: "\<forall>s \<in> set rest. spec_ok s" using "3.prems"(1) by simp
    have srt: "sorted (map spec_key rest)" using "3.prems"(2) by simp
    have cnt: "\<forall>k. length (filter (\<lambda>s. spec_key s = k) rest) \<le> 2"
    proof
      fix k
      have "length (filter (\<lambda>s. spec_key s = k) rest)
              \<le> length (filter (\<lambda>s. spec_key s = k) (a # b # rest))"
        by simp
      also have "\<dots> \<le> 2" using "3.prems"(3) by blast
      finally show "length (filter (\<lambda>s. spec_key s = k) rest) \<le> 2" .
    qed
    have notin: "spec_key a \<notin> spec_key ` set rest"
    proof
      assume "spec_key a \<in> spec_key ` set rest"
      then obtain c where c: "c \<in> set rest" "spec_key c = spec_key a" by auto
      then have "filter (\<lambda>s. spec_key s = spec_key a) rest \<noteq> []"
        by (auto simp: filter_empty_conv)
      then have "length (filter (\<lambda>s. spec_key s = spec_key a) rest) \<ge> 1"
        by (cases "filter (\<lambda>s. spec_key s = spec_key a) rest") auto
      then have "length (filter (\<lambda>s. spec_key s = spec_key a) (a # b # rest)) \<ge> 3"
        using ab by simp
      with "3.prems"(3) show False
        by (metis Suc_1 eval_nat_numeral(3) not_less_eq_eq)
    qed
    have "import_key (mergeImports (spec_node a) (spec_node b)) = Some (spec_key a)"
      using "3.prems"(1) by (simp add: mergeImports_key spec_ok_def)
    moreover have "Some (spec_key a) \<notin> set (map import_key (merge_pass rest))"
      using merge_pass_keys_subset [OF ok] notin by auto
    moreover have "distinct (map import_key (merge_pass rest))"
      using "3.IH"(1) [OF True ok srt cnt] .
    ultimately show ?thesis using True by simp
  next
    case False
    then have ab: "spec_key a \<noteq> spec_key b" by (simp add: compareImports_eq)
    have ok: "\<forall>s \<in> set (b # rest). spec_ok s" using "3.prems"(1) by simp
    have srt: "sorted (map spec_key (b # rest))" using "3.prems"(2) by simp
    have cnt: "\<forall>k. length (filter (\<lambda>s. spec_key s = k) (b # rest)) \<le> 2"
    proof
      fix k
      have "length (filter (\<lambda>s. spec_key s = k) (b # rest))
              \<le> length (filter (\<lambda>s. spec_key s = k) (a # b # rest))"
        by simp
      also have "\<dots> \<le> 2" using "3.prems"(3) by blast
      finally show "length (filter (\<lambda>s. spec_key s = k) (b # rest)) \<le> 2" .
    qed
    have lt: "spec_key a < spec_key b" using "3.prems"(2) ab by (simp add: less_le)
    have "\<forall>c \<in> set (b # rest). spec_key a < spec_key c"
      using "3.prems"(2) lt by auto
    then have notin: "spec_key a \<notin> spec_key ` set (b # rest)" by auto
    have "import_key (spec_node a) = Some (spec_key a)"
      using "3.prems"(1) by (simp add: spec_ok_def)
    moreover have "Some (spec_key a) \<notin> set (map import_key (merge_pass (b # rest)))"
      using merge_pass_keys_subset [OF ok] notin by auto
    moreover have "distinct (map import_key (merge_pass (b # rest)))"
      using "3.IH"(2) [OF False ok srt cnt] .
    ultimately show ?thesis using False by simp
  qed
qed

lemma distinct_filter_le1:
  "distinct (map f xs) \<Longrightarrow> length (filter (\<lambda>s. f s = k) xs) \<le> 1"
proof (induction xs)
  case Nil
  show ?case by simp
next
  case (Cons a xs)
  show ?case
  proof (cases "f a = k")
    case True
    from Cons.prems have "f a \<notin> f ` set xs" by simp
    then have "\<forall>x \<in> set xs. f x \<noteq> f a" by (metis image_eqI)
    with True have "filter (\<lambda>s. f s = k) xs = []"
      by (simp add: filter_empty_conv)
    with True show ?thesis by simp
  next
    case False
    with Cons show ?thesis by simp
  qed
qed

lemma mergedImports_distinct:
  assumes "distinct (map spec_key (extractPlasmicImports edited_file))"
    and "distinct (map spec_key (extractPlasmicImports new_file))"
  shows "distinct (map import_key (mergedImports new_file edited_file))"
proof -
  let ?all = "extractPlasmicImports edited_file @ extractPlasmicImports new_file"
  let ?L = "map dropLeadingComments (sort_key spec_key ?all)"
  have ok: "\<forall>s \<in> set ?L. spec_ok s"
    by (auto dest: extract_ok intro: dropLeadingComments_ok)
  have "map spec_key ?L = map spec_key (sort_key spec_key ?all)"
    by (simp add: comp_def)
  then have srt: "sorted (map spec_key ?L)"
    by (simp only: sorted_sort_key)
  have cnt: "\<forall>k. length (filter (\<lambda>s. spec_key s = k) ?L) \<le> 2"
  proof
    fix k
    have "length (filter (\<lambda>s. spec_key s = k) ?L)
            = length (filter (\<lambda>s. spec_key s = k) (sort_key spec_key ?all))"
      by (simp add: filter_map comp_def)
    also have "\<dots> = length (filter (\<lambda>s. spec_key s = k) ?all)"
      by (simp only: sort_key_stable)
    also have "\<dots> \<le> 2"
      using distinct_filter_le1 [OF assms(1), of k] distinct_filter_le1 [OF assms(2), of k]
      by simp
    finally show "length (filter (\<lambda>s. spec_key s = k) ?L) \<le> 2" .
  qed
  show ?thesis
    unfolding mergedImports_def Let_def sort_imports_key
    by (rule merge_pass_distinct [OF ok srt cnt])
qed


lemma mergedImports_keys:
  "set (map import_key (mergedImports new_file edited_file))
     = Some ` spec_key ` (set (extractPlasmicImports edited_file)
                          \<union> set (extractPlasmicImports new_file))"
proof -
  let ?all = "extractPlasmicImports edited_file @ extractPlasmicImports new_file"
  let ?L = "map dropLeadingComments (sort_key spec_key ?all)"
  have ok: "\<forall>s \<in> set ?L. spec_ok s"
    by (auto dest: extract_ok intro: dropLeadingComments_ok)
  have "spec_key ` set ?L = spec_key ` set ?all"
    by (simp add: image_image)
  with merge_pass_keys_subset [OF ok] merge_pass_keys_supset [OF ok]
  have "set (map import_key (merge_pass ?L)) = Some ` spec_key ` set ?all"
    by (simp only: set_eq_subset)
  then show ?thesis
    unfolding mergedImports_def Let_def sort_imports_key by simp
qed

lemma merge_pass_sorted:
  assumes "\<forall>s \<in> set xs. spec_ok s" "sorted (map spec_key xs)"
  shows "sorted (map import_key (merge_pass xs))"
  using assms
proof (induction xs rule: merge_pass.induct)
  case 1
  show ?case by simp
next
  case (2 a)
  show ?case by simp
next
  case (3 a b rest)
  have ka: "import_key (spec_node a) = Some (spec_key a)"
    using "3.prems"(1) by (simp add: spec_ok_def)
  show ?case
  proof (cases "compareImports a b = 0")
    case True
    have ok: "\<forall>s \<in> set rest. spec_ok s" using "3.prems"(1) by simp
    have srt: "sorted (map spec_key rest)" using "3.prems"(2) by simp
    have "\<forall>k \<in> set (map import_key (merge_pass rest)). Some (spec_key a) \<le> k"
      using merge_pass_keys_subset [OF ok] "3.prems"(2) by auto
    with "3.IH"(1) [OF True ok srt] True ka show ?thesis
      by (simp add: mergeImports_key)
  next
    case False
    have ok: "\<forall>s \<in> set (b # rest). spec_ok s" using "3.prems"(1) by simp
    have srt: "sorted (map spec_key (b # rest))" using "3.prems"(2) by simp
    have "\<forall>k \<in> set (map import_key (merge_pass (b # rest))). Some (spec_key a) \<le> k"
      using merge_pass_keys_subset [OF ok] "3.prems"(2) by auto
    with "3.IH"(2) [OF False ok srt] False ka show ?thesis
      by simp
  qed
qed

lemma mergedImports_sorted: "sorted (map import_key (mergedImports new_file edited_file))"
proof -
  let ?all = "extractPlasmicImports edited_file @ extractPlasmicImports new_file"
  let ?L = "map dropLeadingComments (sort_key spec_key ?all)"
  have ok: "\<forall>s \<in> set ?L. spec_ok s"
    by (auto dest: extract_ok intro: dropLeadingComments_ok)
  have "map spec_key ?L = map spec_key (sort_key spec_key ?all)"
    by (simp add: comp_def)
  then have srt: "sorted (map spec_key ?L)"
    by (simp only: sorted_sort_key)
  show ?thesis
    unfolding mergedImports_def Let_def sort_imports_key
    by (rule merge_pass_sorted [OF ok srt])
qed

lemma remdups_adj_fresh: "x \<notin> set ks \<Longrightarrow> remdups_adj (x # ks) = x # remdups_adj ks"
  by (cases ks) auto

lemma filter_key_none: "k \<notin> f ` set xs \<Longrightarrow> filter (\<lambda>s. f s = k) xs = []"
  by (auto simp: filter_empty_conv)

lemma count_le_tail:
  assumes "\<forall>k. length (filter (\<lambda>s. f s = k) (a # xs)) \<le> n"
  shows "\<forall>k. length (filter (\<lambda>s. f s = k) xs) \<le> n"
proof
  fix k
  have "length (filter (\<lambda>s. f s = k) xs) \<le> length (filter (\<lambda>s. f s = k) (a # xs))"
    by simp
  also have "\<dots> \<le> n" using assms by blast
  finally show "length (filter (\<lambda>s. f s = k) xs) \<le> n" .
qed

lemma merge_pass_groups:
  assumes "sorted (map spec_key xs)"
    and "\<forall>k. length (filter (\<lambda>s. spec_key s = k) xs) \<le> 2"
  shows "map Some (merge_pass xs)
         = map (\<lambda>k. group_merge (filter (\<lambda>s. spec_key s = k) xs))
             (remdups_adj (map spec_key xs))"
  using assms
proof (induction xs rule: merge_pass.induct)
  case 1
  show ?case by simp
next
  case (2 a)
  show ?case by simp
next
  case (3 a b rest)
  note c1 = count_le_tail [OF "3.prems"(2)]
  note c2 = count_le_tail [OF c1]
  show ?case
  proof (cases "compareImports a b = 0")
    case True
    then have ab: "spec_key b = spec_key a" by (simp add: compareImports_eq)
    have srt: "sorted (map spec_key rest)" using "3.prems"(1) by simp
    have notin: "spec_key a \<notin> spec_key ` set rest"
    proof
      assume "spec_key a \<in> spec_key ` set rest"
      then have "filter (\<lambda>s. spec_key s = spec_key a) rest \<noteq> []"
        by (auto simp: filter_empty_conv)
      then have "length (filter (\<lambda>s. spec_key s = spec_key a) rest) \<ge> 1"
        by (cases "filter (\<lambda>s. spec_key s = spec_key a) rest") auto
      then have "length (filter (\<lambda>s. spec_key s = spec_key a) (a # b # rest)) \<ge> 3"
        using ab by simp
      with "3.prems"(2) show False
        by (metis Suc_1 eval_nat_numeral(3) not_less_eq_eq)
    qed
    have keys: "remdups_adj (map spec_key (a # b # rest))
                = spec_key a # remdups_adj (map spec_key rest)"
      using ab notin by (simp add: remdups_adj_fresh)
    have hd: "group_merge (filter (\<lambda>s. spec_key s = spec_key a) (a # b # rest))
              = Some (mergeImports (spec_node a) (spec_node b))"
      using ab filter_key_none [OF notin] by simp
    have tl: "map (\<lambda>k. group_merge (filter (\<lambda>s. spec_key s = k) (a # b # rest)))
                (remdups_adj (map spec_key rest))
              = map (\<lambda>k. group_merge (filter (\<lambda>s. spec_key s = k) rest))
                  (remdups_adj (map spec_key rest))"
    proof (rule map_cong [OF refl])
      fix k assume "k \<in> set (remdups_adj (map spec_key rest))"
      then have kin: "k \<in> spec_key ` set rest" by simp
      have "k \<noteq> spec_key a"
      proof
        assume "k = spec_key a"
        with kin notin show False by simp
      qed
      with ab show "group_merge (filter (\<lambda>s. spec_key s = k) (a # b # rest))
                    = group_merge (filter (\<lambda>s. spec_key s = k) rest)"
        by simp
    qed
    from "3.IH"(1) [OF True srt c2] True keys hd tl show ?thesis by simp
  next
    case False
    then have ab: "spec_key a \<noteq> spec_key b" by (simp add: compareImports_eq)
    have srt: "sorted (map spec_key (b # rest))" using "3.prems"(1) by simp
    have lt: "spec_key a < spec_key b" using "3.prems"(1) ab by (simp add: less_le)
    have "\<forall>c \<in> set (b # rest). spec_key a < spec_key c"
      using "3.prems"(1) lt by auto
    then have notin: "spec_key a \<notin> spec_key ` set (b # rest)" by auto
    have keys: "remdups_adj (map spec_key (a # b # rest))
                = spec_key a # remdups_adj (map spec_key (b # rest))"
      using ab by simp
    have hd: "group_merge (filter (\<lambda>s. spec_key s = spec_key a) (a # b # rest))
              = Some (spec_node a)"
      using filter_key_none [OF notin] by simp
    have tl: "map (\<lambda>k. group_merge (filter (\<lambda>s. spec_key s = k) (a # b # rest)))
                (remdups_adj (map spec_key (b # rest)))
              = map (\<lambda>k. group_merge (filter (\<lambda>s. spec_key s = k) (b # rest)))
                  (remdups_adj (map spec_key (b # rest)))"
    proof (rule map_cong [OF refl])
      fix k assume "k \<in> set (remdups_adj (map spec_key (b # rest)))"
      then have kin: "k \<in> spec_key ` set (b # rest)" by simp
      have "k \<noteq> spec_key a"
      proof
        assume "k = spec_key a"
        with kin notin show False by simp
      qed
      then show "group_merge (filter (\<lambda>s. spec_key s = k) (a # b # rest))
                    = group_merge (filter (\<lambda>s. spec_key s = k) (b # rest))"
        by simp
    qed
    from "3.IH"(2) [OF False srt c1] False keys hd tl show ?thesis by simp
  qed
qed

lemma filter_find_distinct:
  assumes "distinct (map f xs)"
  shows "filter (\<lambda>s. f s = k) xs = (case find (\<lambda>s. f s = k) xs of None \<Rightarrow> [] | Some x \<Rightarrow> [x])"
  using assms
proof (induction xs)
  case Nil
  show ?case by simp
next
  case (Cons a xs)
  show ?case
  proof (cases "f a = k")
    case True
    from Cons.prems have "f a \<notin> f ` set xs" by simp
    with True have "k \<notin> f ` set xs" by simp
    from filter_key_none [OF this] True show ?thesis by simp
  next
    case False
    with Cons show ?thesis by simp
  qed
qed

lemma sorted_remdups_adj_distinct: "sorted xs \<Longrightarrow> distinct (remdups_adj xs)"
proof (induction xs rule: remdups_adj.induct)
  case (3 x y xs)
  show ?case
  proof (cases "x = y")
    case True
    with 3 show ?thesis by simp
  next
    case False
    with "3.prems" have "\<forall>z \<in> set (y # xs). x < z" by (auto simp: less_le)
    then have "x \<notin> set (remdups_adj (y # xs))" by auto
    with False 3 show ?thesis by simp
  qed
qed simp_all

lemma remdups_adj_sorted_keys:
  assumes "sorted (map f xs)"
  shows "remdups_adj (map f xs) = sort (remdups (map f xs))"
proof (rule sorted_distinct_set_unique)
  show "sorted (remdups_adj (map f xs))" using assms by simp
  show "distinct (remdups_adj (map f xs))" using assms by (rule sorted_remdups_adj_distinct)
  show "sorted (sort (remdups (map f xs)))" by simp
  show "distinct (sort (remdups (map f xs)))" by simp
  show "set (remdups_adj (map f xs)) = set (sort (remdups (map f xs)))" by simp
qed

lemma mergedImports_union:
  assumes "distinct (map spec_key (extractPlasmicImports edited_file))"
    and "distinct (map spec_key (extractPlasmicImports new_file))"
  shows "map Some (mergedImports new_file edited_file)
         = map (union_import edited_file new_file) (union_keys edited_file new_file)"
proof -
  let ?E = "extractPlasmicImports edited_file"
  let ?N = "extractPlasmicImports new_file"
  let ?all = "?E @ ?N"
  let ?L = "map dropLeadingComments (sort_key spec_key ?all)"
  have keys: "map spec_key ?L = map spec_key (sort_key spec_key ?all)"
    by (simp add: comp_def)
  then have srt: "sorted (map spec_key ?L)"
    by (simp only: sorted_sort_key)
  have flt: "filter (\<lambda>s. spec_key s = k) ?L
             = map dropLeadingComments
                 (filter (\<lambda>s. spec_key s = k) ?E @ filter (\<lambda>s. spec_key s = k) ?N)" for k
  proof -
    have "filter (\<lambda>s. spec_key s = k) ?L
          = map dropLeadingComments (filter (\<lambda>s. spec_key s = k) (sort_key spec_key ?all))"
      by (simp add: filter_map comp_def)
    also have "filter (\<lambda>s. spec_key s = k) (sort_key spec_key ?all)
               = filter (\<lambda>s. spec_key s = k) ?all"
      by (simp only: sort_key_stable)
    finally show ?thesis by simp
  qed
  have cnt: "\<forall>k. length (filter (\<lambda>s. spec_key s = k) ?L) \<le> 2"
  proof
    fix k
    from distinct_filter_le1 [OF assms(1), of k] distinct_filter_le1 [OF assms(2), of k]
    show "length (filter (\<lambda>s. spec_key s = k) ?L) \<le> 2"
      by (simp add: flt)
  qed
  have grp: "group_merge (filter (\<lambda>s. spec_key s = k) ?L) = union_import edited_file new_file k"
    for k
    by (simp add: flt filter_find_distinct [OF assms(1)] filter_find_distinct [OF assms(2)]
          union_import_def import_with_key_def mergeImports_spec
          split: option.splits)
  have "remdups_adj (map spec_key ?L) = sort (remdups (map spec_key ?L))"
    using srt by (rule remdups_adj_sorted_keys)
  also have "\<dots> = sort (remdups (map spec_key (sort_key spec_key ?all)))"
    by (simp only: keys)
  also have "\<dots> = union_keys edited_file new_file"
    unfolding union_keys_def
    by (rule sorted_distinct_set_unique) (simp_all add: image_Un)
  finally have k: "remdups_adj (map spec_key ?L) = union_keys edited_file new_file" .
  have "map Some (merge_pass ?L)
        = map (\<lambda>k. group_merge (filter (\<lambda>s. spec_key s = k) ?L)) (remdups_adj (map spec_key ?L))"
    by (rule merge_pass_groups [OF srt cnt])
  also have "\<dots> = map (union_import edited_file new_file) (union_keys edited_file new_file)"
    by (simp only: k grp)
  finally show ?thesis
    unfolding mergedImports_def Let_def sort_imports_key .
qed

text \<open>
  C8, as the code has it. The managed imports of the edited and the new file are sorted
  by \<open>(id, type)\<close>, and two adjacent imports compare equal exactly when their
  \<open>(id, type)\<close> are the same; such a pair is merged by copying the first and appending
  each specifier of the second unless the first has the same default or named specifier
  (a namespace specifier is always appended). The \<open>(id, type)\<close> pairs of the output are
  those of the two files, in ascending order. When neither file has two managed imports
  with the same \<open>(id, type)\<close>, the output has no two declarations with the same
  \<open>(id, type)\<close> and is the union: for each \<open>(id, type)\<close> of the two files, in ascending
  order, the import of the edited file with the specifiers of the new file's import
  merged into it, or the one import that there is, without leading comments. In
  scenario S7 the imports \<^verbatim>\<open>{A, B}\<close> of the edited file and \<^verbatim>\<open>{B, C}\<close> of the new file
  merge to the one import \<^verbatim>\<open>{A, B, C}\<close>, which takes the place of the managed import of
  the edited file.
\<close>

theorem import_merger_union:
  "mergeImports a b = a\<lparr>specifiers := mergeSpecifiers a b\<rparr>
   \<and> (compareImports x y = 0) = (spec_key x = spec_key y)
   \<and> set (map import_key (mergedImports new_file edited_file))
       = Some ` spec_key ` (set (extractPlasmicImports edited_file)
                            \<union> set (extractPlasmicImports new_file))
   \<and> sorted (map import_key (mergedImports new_file edited_file))
   \<and> (distinct (map spec_key (extractPlasmicImports edited_file))
        \<and> distinct (map spec_key (extractPlasmicImports new_file))
      \<longrightarrow> distinct (map import_key (mergedImports new_file edited_file))
          \<and> map Some (mergedImports new_file edited_file)
            = map (union_import edited_file new_file) (union_keys edited_file new_file))
   \<and> mergedImports [ImportStmt (s7_import [''B'', ''C''])]
        [ImportStmt (s7_import [''A'', ''B''])]
      = [(s7_import [''A'', ''B'', ''C''])\<lparr>leadingComments := None\<rparr>]
   \<and> mergePlasmicImports
        [Stmt (Identifier ''s''), ImportStmt (s7_import [''A'', ''B'']), Stmt (Identifier ''t'')]
        [ImportStmt (s7_import [''B'', ''C''])]
        [Stmt (Identifier ''s''), ImportStmt (s7_import [''A'', ''B'']), Stmt (Identifier ''t'')]
      = [Stmt (Identifier ''s''),
         ImportStmt ((s7_import [''A'', ''B'', ''C''])\<lparr>leadingComments := None\<rparr>),
         Stmt (Identifier ''t'')]"
proof (intro conjI impI)
  show "mergedImports [ImportStmt (s7_import [''B'', ''C''])]
        [ImportStmt (s7_import [''A'', ''B''])]
      = [(s7_import [''A'', ''B'', ''C''])\<lparr>leadingComments := None\<rparr>]"
    by code_simp
  show "mergePlasmicImports
        [Stmt (Identifier ''s''), ImportStmt (s7_import [''A'', ''B'']), Stmt (Identifier ''t'')]
        [ImportStmt (s7_import [''B'', ''C''])]
        [Stmt (Identifier ''s''), ImportStmt (s7_import [''A'', ''B'']), Stmt (Identifier ''t'')]
      = [Stmt (Identifier ''s''),
         ImportStmt ((s7_import [''A'', ''B'', ''C''])\<lparr>leadingComments := None\<rparr>),
         Stmt (Identifier ''t'')]"
    by code_simp
  show "set (map import_key (mergedImports new_file edited_file))
       = Some ` spec_key ` (set (extractPlasmicImports edited_file)
                            \<union> set (extractPlasmicImports new_file))"
    by (rule mergedImports_keys)
  show "sorted (map import_key (mergedImports new_file edited_file))"
    by (rule mergedImports_sorted)
next
  assume d: "distinct (map spec_key (extractPlasmicImports edited_file))
        \<and> distinct (map spec_key (extractPlasmicImports new_file))"
  then show "distinct (map import_key (mergedImports new_file edited_file))"
    by (simp add: mergedImports_distinct)
  from d show "map Some (mergedImports new_file edited_file)
            = map (union_import edited_file new_file) (union_keys edited_file new_file)"
    by (simp add: mergedImports_union)
qed (simp_all add: mergeImports_spec compareImports_eq)

theorem import_merger_union_witness:
  "distinct (map spec_key (extractPlasmicImports union_edited_file))
   \<and> distinct (map spec_key (extractPlasmicImports union_new_file))
   \<and> distinct (map import_key (mergedImports union_new_file union_edited_file))
   \<and> mergedImports union_new_file union_edited_file
     = [(managed_import ''7'' [''A'', ''B'', ''C''])\<lparr>leadingComments := None\<rparr>,
        (managed_import ''8'' [''Y''])\<lparr>leadingComments := None\<rparr>,
        (managed_import ''9'' [''Z''])\<lparr>leadingComments := None\<rparr>]"
proof -
  have e: "distinct (map spec_key (extractPlasmicImports union_edited_file))"
    by code_simp
  have n: "distinct (map spec_key (extractPlasmicImports union_new_file))"
    by code_simp
  have u: "map (union_import union_edited_file union_new_file)
             (union_keys union_edited_file union_new_file)
           = map Some
               [(managed_import ''7'' [''A'', ''B'', ''C''])\<lparr>leadingComments := None\<rparr>,
                (managed_import ''8'' [''Y''])\<lparr>leadingComments := None\<rparr>,
                (managed_import ''9'' [''Z''])\<lparr>leadingComments := None\<rparr>]"
    by code_simp
  from import_merger_union
         [of a b x y union_new_file union_edited_file for a b x y]
       e n
  have d: "distinct (map import_key (mergedImports union_new_file union_edited_file))"
    and m: "map Some (mergedImports union_new_file union_edited_file)
            = map (union_import union_edited_file union_new_file)
                (union_keys union_edited_file union_new_file)"
    by blast+
  from m u have "map Some (mergedImports union_new_file union_edited_file)
           = map Some
               [(managed_import ''7'' [''A'', ''B'', ''C''])\<lparr>leadingComments := None\<rparr>,
                (managed_import ''8'' [''Y''])\<lparr>leadingComments := None\<rparr>,
                (managed_import ''9'' [''Z''])\<lparr>leadingComments := None\<rparr>]"
    by (simp only:)
  then have "mergedImports union_new_file union_edited_file
     = [(managed_import ''7'' [''A'', ''B'', ''C''])\<lparr>leadingComments := None\<rparr>,
        (managed_import ''8'' [''Y''])\<lparr>leadingComments := None\<rparr>,
        (managed_import ''9'' [''Z''])\<lparr>leadingComments := None\<rparr>]"
    by (simp only: inj_map_eq_map [OF inj_Some])
  with e n d show ?thesis by simp
qed

text \<open>
  The claim as stated promises a duplicate-free result for all files. When the edited
  file has two managed imports with the same \<open>(id, type)\<close> and the new file has a third,
  the first two are merged and the third stays: two declarations of the output have the
  same \<open>(id, type)\<close>.
\<close>

theorem import_triple_counterexample:
  "mergedImports once_new_file twice_edited_file
     = [(s7_import [''A'', ''A2''])\<lparr>leadingComments := None\<rparr>,
        (s7_import [''B''])\<lparr>leadingComments := None\<rparr>]
   \<and> map import_key (mergedImports once_new_file twice_edited_file)
     = [Some (''7'', None), Some (''7'', None)]"
  by code_simp

subsection \<open>\<^verbatim>\<open>mergeFiles\<close>\<close>

lemma in_fst_image: "(a, b) \<in> set m \<Longrightarrow> a \<in> fst ` set m"
  by force

lemma map_set_map_fst:
  "map fst (map_set k v m) = (if k \<in> set (map fst m) then map fst m else map fst m @ [k])"
  by (induction m) (auto dest: in_fst_image)

lemma map_set_keys: "fst ` set (map_set k v m) = insert k (fst ` set m)"
proof -
  have "set (map fst (map_set k v m)) = insert k (set (map fst m))"
    by (simp only: map_set_map_fst) auto
  then show ?thesis by simp
qed

text \<open>The keys of the two maps that \<^verbatim>\<open>mergeFiles\<close> fills.\<close>

lemma updateable_loop_keys:
  assumes "updateable_loop ext cbu acc = Inr upd"
  shows "fst ` set upd
           = fst ` set acc
             \<union> {u. \<exists>c p. (u, c) \<in> set cbu
                    \<and> tryParseComponentSkeletonFile (parse ext) (editedFile c) = Inr (Some p)}"
  using assms
proof (induction cbu arbitrary: acc)
  case Nil
  then show ?case by simp
next
  case (Cons uc cbu)
  obtain u c where uc: "uc = (u, c)" by (cases uc)
  show ?case
  proof (cases "tryParseComponentSkeletonFile (parse ext) (editedFile c)")
    case (Inl e)
    with Cons.prems uc show ?thesis by (simp add: bind_err_def)
  next
    case (Inr r)
    show ?thesis
    proof (cases r)
      case None
      with Inr Cons.prems uc have "updateable_loop ext cbu acc = Inr upd"
        by (simp add: bind_err_def)
      from Cons.IH [OF this] Inr None uc show ?thesis by auto
    next
      case (Some p)
      with Inr Cons.prems uc have "updateable_loop ext cbu (map_set u p acc) = Inr upd"
        by (simp add: bind_err_def)
      from Cons.IH [OF this] Inr Some uc show ?thesis
        by (auto simp: map_set_keys)
    qed
  qed
qed

lemma updateable_loop_none:
  assumes "\<forall>(u, c) \<in> set cbu.
             tryParseComponentSkeletonFile (parse ext) (editedFile c) = Inr None"
  shows "updateable_loop ext cbu acc = Inr acc"
  using assms by (induction cbu arbitrary: acc) (auto simp: bind_err_def)

lemma merge_loop_keys:
  assumes "merge_loop ext cbu pid prov upd acc = Inr m"
  shows "fst ` set m = fst ` set acc \<union> fst ` set upd"
  using assms
proof (induction upd arbitrary: acc)
  case Nil
  then show ?case by simp
next
  case (Cons up upd)
  obtain u p where up: "up = (u, p)" by (cases up)
  from Cons.prems up obtain t where
    "merge_loop ext cbu pid prov upd (map_set u t acc) = Inr m"
    by (auto simp: bind_err_def split: sum.splits)
  from Cons.IH [OF this] up show ?case by (auto simp: map_set_keys)
qed

lemma mergeFiles_keys:
  assumes "mergeFiles ext cbu pid prov = Inr (Some m)"
  shows "fst ` set m
           = {u. \<exists>c p. (u, c) \<in> set cbu
                  \<and> tryParseComponentSkeletonFile (parse ext) (editedFile c) = Inr (Some p)}"
proof -
  from assms obtain upd where upd: "updateable_loop ext cbu [] = Inr upd"
    and m: "merge_loop ext cbu pid prov upd [] = Inr m"
    by (auto simp: mergeFiles_def bind_err_def split: sum.splits if_splits)
  from updateable_loop_keys [OF upd] merge_loop_keys [OF m] show ?thesis by simp
qed

text \<open>
  C2, as the code has it. A component whose edited file does not carry the marker gets
  no entry in the mapping that \<^verbatim>\<open>mergeFiles\<close> returns (the keys of a \<^verbatim>\<open>Map\<close> are distinct).
  When no component of \<^verbatim>\<open>componentByUuid\<close> carries the marker, \<^verbatim>\<open>mergeFiles\<close> returns
  \<^verbatim>\<open>undefined\<close>, not a mapping.
\<close>

theorem mergeFiles_skips_unmarked:
  "(distinct (map fst componentByUuid) \<and> (u, c) \<in> set componentByUuid
      \<and> tryParseComponentSkeletonFile (parse ext) (editedFile c) = Inr None
      \<and> mergeFiles ext componentByUuid projectId provider = Inr (Some mergedFiles)
     \<longrightarrow> map_of mergedFiles u = None)
   \<and> ((\<forall>(u, c) \<in> set componentByUuid.
          tryParseComponentSkeletonFile (parse ext) (editedFile c) = Inr None)
     \<longrightarrow> mergeFiles ext componentByUuid projectId provider = Inr None)"
proof (intro conjI impI)
  assume a: "distinct (map fst componentByUuid) \<and> (u, c) \<in> set componentByUuid
      \<and> tryParseComponentSkeletonFile (parse ext) (editedFile c) = Inr None
      \<and> mergeFiles ext componentByUuid projectId provider = Inr (Some mergedFiles)"
  show "map_of mergedFiles u = None"
  proof (rule ccontr)
    assume "map_of mergedFiles u \<noteq> None"
    then have "u \<in> fst ` set mergedFiles"
      by (simp add: map_of_eq_None_iff)
    with a mergeFiles_keys [of ext componentByUuid projectId provider mergedFiles]
    obtain c' p where c': "(u, c') \<in> set componentByUuid"
      "tryParseComponentSkeletonFile (parse ext) (editedFile c') = Inr (Some p)"
      by auto
    from a c'(1) have "c' = c"
      by (meson eq_key_imp_eq_value)
    with a c'(2) show False by simp
  qed
next
  assume "\<forall>(u, c) \<in> set componentByUuid.
          tryParseComponentSkeletonFile (parse ext) (editedFile c) = Inr None"
  then show "mergeFiles ext componentByUuid projectId provider = Inr None"
    by (simp add: mergeFiles_def updateable_loop_none bind_err_def)
qed

theorem mergeFiles_skips_unmarked_witness:
  "mergeFiles example_externals example_components ''p'' example_provider
     = Inr (Some [(''u1'', ''new'')])
   \<and> map_of [(''u1'', ''new'')] ''u0'' = None
   \<and> mergeFiles example_externals [hd example_components] ''p'' example_provider = Inr None"
proof -
  have m: "mergeFiles example_externals example_components ''p'' example_provider
     = Inr (Some [(''u1'', ''new'')])"
    by code_simp
  have d: "distinct (map fst example_components)"
    and i: "(''u0'', snd (hd example_components)) \<in> set example_components"
    by (simp_all add: example_components_def)
  have t: "tryParseComponentSkeletonFile (parse example_externals)
             (editedFile (snd (hd example_components))) = Inr None"
    by code_simp
  have a: "\<forall>(u, c) \<in> set [hd example_components].
             tryParseComponentSkeletonFile (parse example_externals) (editedFile c) = Inr None"
    using t by (simp add: example_components_def)
  from mergeFiles_skips_unmarked
         [of example_components "''u0''" "snd (hd example_components)" example_externals
             "''p''" example_provider "[(''u1'', ''new'')]"]
       d i t m
  have "map_of [(''u1'', ''new'')] ''u0'' = None" by blast
  moreover
  from mergeFiles_skips_unmarked
         [of "[hd example_components]" u c example_externals "''p''" example_provider m
          for u c m]
       a
  have "mergeFiles example_externals [hd example_components] ''p'' example_provider = Inr None"
    by blast
  ultimately show ?thesis using m by simp
qed

text \<open>
  The claim as stated promises an empty mapping when nothing is mergeable. With one
  component whose edited file has no marker the result is \<^verbatim>\<open>undefined\<close>, which is not the
  empty mapping.
\<close>

theorem mergeFiles_returns_undefined_counterexample:
  "mergeFiles example_externals [hd example_components] ''p'' example_provider = Inr None
   \<and> mergeFiles example_externals [hd example_components] ''p'' example_provider
       \<noteq> Inr (Some [])"
  by code_simp

subsection \<open>Merging a version with itself\<close>

lemma map_set_map_of: "map_of (map_set k v m) = (map_of m)(k \<mapsto> v)"
  by (induction m) (auto simp: fun_eq_iff)

lemma map_set_distinct: "distinct (map fst m) \<Longrightarrow> distinct (map fst (map_set k v m))"
  by (simp add: map_set_map_fst)

lemma getNamedAttrs_loop_props:
  assumes "list_all (attr_consistent hp x) attrs" "distinct (map fst acc)"
  shows "\<exists>named. getNamedAttrs_loop attrs acc = Inr named \<and> distinct (map fst named)
           \<and> (\<forall>name v. JSXAttribute (JSXIdentifier name) v \<in> set attrs \<longrightarrow> map_of named name \<noteq> None)
           \<and> (\<forall>name. map_of acc name \<noteq> None \<longrightarrow> map_of named name \<noteq> None)"
  using assms
proof (induction attrs acc rule: getNamedAttrs_loop.induct)
  case (1 attrs)
  then show ?case by simp
next
  case (2 name v rest attrs)
  let ?acc = "map_set name (JSXAttribute (JSXIdentifier name) v) attrs"
  from 2 have "list_all (attr_consistent hp x) rest" "distinct (map fst ?acc)"
    by (simp_all add: map_set_distinct)
  from "2.IH" [OF this] obtain named where n: "getNamedAttrs_loop rest ?acc = Inr named"
      "distinct (map fst named)"
      "\<forall>name v. JSXAttribute (JSXIdentifier name) v \<in> set rest \<longrightarrow> map_of named name \<noteq> None"
      "\<forall>nm. map_of ?acc nm \<noteq> None \<longrightarrow> map_of named nm \<noteq> None"
    by blast
  then show ?case by (auto simp: map_set_map_of)
next
  case (3 ns name v rest attrs)
  then show ?case by simp
qed (auto)


lemma deq_refl [simp]: "nodesDeepEqualIgnoreComments a a"
  by (simp add: nodesDeepEqualIgnoreComments_def)

lemma deq_sym: "nodesDeepEqualIgnoreComments a b = nodesDeepEqualIgnoreComments b a"
  by (auto simp: nodesDeepEqualIgnoreComments_def)

lemma conflictResolution_self:
  "conflictResolution name (Some na) attr na = EmitEdited"
  by (simp add: conflictResolution_def deq_sym [of na attr])

lemma newAttrs_loop_self:
  assumes "distinct (map fst named)" "set entries \<subseteq> set named"
  shows "newAttrs_loop tbl n named named entries acc = Inr acc"
  using assms(2)
proof (induction entries)
  case Nil
  show ?case by simp
next
  case (Cons e entries)
  obtain name attr where e: "e = (name, attr)" by (cases e)
  with Cons.prems have "(name, attr) \<in> set named" by simp
  with assms(1) have "map_of named name = Some attr" by simp
  then have "newAttrs_step tbl n named named (name, attr) acc = Inr acc"
    by (simp add: newAttrs_step_def conflictResolution_self)
  with Cons e show ?case by (simp add: bind_err_def)
qed

lemma edited_attr_step_self:
  assumes "attr_consistent hp x attr"
    and "\<And>name v. attr = JSXAttribute (JSXIdentifier name) v \<Longrightarrow> map_of named name \<noteq> None"
  shows "edited_attr_step x x hp named named attr = Inr [attr]"
proof (cases "(hp, x, attr)" rule: attr_consistent.cases)
  case (1 hp' x' callee args)
  with assms(1) show ?thesis
    by (auto simp: edited_attr_step_def calleeMatch_def memberExpressionMatch_iff)
next
  case (3 hp' x' name v)
  then have attr: "attr = JSXAttribute (JSXIdentifier name) v" by simp
  from assms(2) [OF attr] obtain na where na: "map_of named name = Some na" by auto
  have emit: "emitAttrInEditedNode x x named named name attr = Some attr"
    by (simp add: emitAttrInEditedNode_def na conflictResolution_self)
  show ?thesis
  proof (cases "if name = ''className'' then containerCallee v else None")
    case None
    with attr emit show ?thesis by (simp add: edited_attr_step_def)
  next
    case (Some callee)
    show ?thesis
    proof (cases "calleeMatch callee helperObject (''cls'' @ x)")
      case True
      with Some assms(1) attr have c: "\<not> hp" "attr = classNameAttr x" by simp_all
      from True have "is_member callee"
        by (simp add: calleeMatch_def memberExpressionMatch_iff)
      with True Some attr c show ?thesis by (simp add: edited_attr_step_def)
    next
      case False
      with Some attr emit show ?thesis by (simp add: edited_attr_step_def)
    qed
  qed
qed (use assms(1) in \<open>simp_all add: edited_attr_step_def\<close>)

lemma edited_attrs_loop_self:
  assumes "list_all (attr_consistent hp x) attrs"
    and "\<And>name v. JSXAttribute (JSXIdentifier name) v \<in> set attrs \<Longrightarrow> map_of named name \<noteq> None"
  shows "edited_attrs_loop x x hp named named attrs acc = Inr (acc @ attrs)"
  using assms
proof (induction attrs arbitrary: acc)
  case Nil
  show ?case by simp
next
  case (Cons a attrs)
  have "edited_attr_step x x hp named named a = Inr [a]"
    using Cons.prems by (intro edited_attr_step_self) auto
  moreover have "edited_attrs_loop x x hp named named attrs (acc @ [a]) = Inr ((acc @ [a]) @ attrs)"
    using Cons.prems by (intro Cons.IH) auto
  ultimately show ?case by (simp add: bind_err_def)
qed

lemma mergeAttributes_self:
  assumes "consistent_tag V n"
  shows "mergeAttributes tbl n n n V = Inr (jsx_attributes (jsxRaw n))"
proof -
  let ?hp = "hasPropsIdSpreador V n"
  from assms have c: "list_all (attr_consistent ?hp (nameInId n)) (jsx_attributes (jsxRaw n))"
    unfolding consistent_tag_def by blast
  from assms have x: "?hp \<noteq> hasClassNameIdAttr V n"
    unfolding consistent_tag_def by blast
  from getNamedAttrs_loop_props [OF c, of "[]"] obtain named where
    n: "getNamedAttrs (jsxRaw n) = Inr named" "distinct (map fst named)"
      "\<forall>name v. JSXAttribute (JSXIdentifier name) v \<in> set (jsx_attributes (jsxRaw n))
         \<longrightarrow> map_of named name \<noteq> None"
    by (auto simp: getNamedAttrs_def)
  have s1: "newAttrsBeforeIdNode tbl n named named named = Inr []"
    by (simp add: newAttrsBeforeIdNode_def newAttrs_loop_self [OF n(2)])
  have s2: "edited_attrs_loop (nameInId n) (nameInId n) ?hp named named
              (jsx_attributes (jsxRaw n)) [] = Inr ([] @ jsx_attributes (jsxRaw n))"
    using c n(3) by (intro edited_attrs_loop_self) auto
  from x have x': "(?hp = hasClassNameIdAttr V n) = False" by simp
  show ?thesis
    by (simp add: mergeAttributes_def Let_def n(1) s1 s2 bind_err_def x')
qed


lemma first_index_from_le:
  assumes "k \<le> i" "i < length nodes" "P (nodes ! i)"
  shows "\<exists>j. first_index_from P nodes k = Some j \<and> j \<le> i"
proof -
  have "i \<in> set [k..<length nodes]" using assms by simp
  with assms(3) have "find (\<lambda>j. P (nodes ! j)) [k..<length nodes] \<noteq> None"
    by (auto simp: find_None_iff)
  then obtain j where j: "find (\<lambda>j. P (nodes ! j)) [k..<length nodes] = Some j" by auto
  then obtain idx where idx: "idx < length [k..<length nodes]" "j = [k..<length nodes] ! idx"
      "\<forall>m<idx. \<not> P (nodes ! ([k..<length nodes] ! m))"
    by (auto simp: find_Some_iff)
  have "j \<le> i"
  proof (rule ccontr)
    assume "\<not> j \<le> i"
    with idx assms have "i - k < idx" by auto
    with idx(3) have "\<not> P (nodes ! ([k..<length nodes] ! (i - k)))" by blast
    with assms show False by simp
  qed
  with j show ?thesis by (simp add: first_index_from_def)
qed

lemma children_loop_self:
  assumes "list_all (\<lambda>c. \<not> is_opaque c) es" "es = drop i cs" "nextInsertStartAt st \<le> i"
    and "merged st = map (Pair FromNew) cs"
  shows "merged (children_loop nv ev bv bcs prev es st) = map (Pair FromNew) cs"
  using assms
proof (induction es arbitrary: i st prev)
  case Nil
  then show ?case by simp
next
  case (Cons e es)
  from Cons.prems(2) have i: "i < length cs"
    by (cases "i < length cs") auto
  from Cons.prems(2) Cons_nth_drop_Suc [OF i] have "e # es = cs ! i # drop (Suc i) cs"
    by metis
  then have e: "e = cs ! i" and es: "es = drop (Suc i) cs"
    by simp_all
  from Cons.prems(1) have ne: "\<not> is_opaque e" and rest: "list_all (\<lambda>c. \<not> is_opaque c) es"
    by simp_all
  let ?st = "children_step nv ev bv bcs e prev st"
  have "merged ?st = map (Pair FromNew) cs \<and> nextInsertStartAt ?st \<le> Suc i"
  proof (cases "is_textual e")
    case True
    have len: "i < length (map snd (merged st))" using i Cons.prems(4) by simp
    have at: "map snd (merged st) ! i = e" using i e Cons.prems(4) by (simp add: comp_def)
    from first_index_from_le [of "nextInsertStartAt st" i "map snd (merged st)"
           "\<lambda>ni. is_textual ni \<and> value_of ni = value_of e"] Cons.prems(3) len at True
    obtain j where "first_index_from (\<lambda>ni. is_textual ni \<and> value_of ni = value_of e)
                      (map snd (merged st)) (nextInsertStartAt st) = Some j" "j \<le> i"
      by auto
    with True Cons.prems(4) show ?thesis
      by (simp add: children_step_def findMatch_textual)
  next
    case False
    with ne Cons.prems(3,4) show ?thesis by (simp add: children_step_def)
  qed
  with Cons.IH [of "Suc i" ?st "Some e"] rest es show ?case by simp
qed

lemma merged_list_self:
  assumes "list_all (\<lambda>c. \<not> is_opaque c) cs"
  shows "merged_list nv ev bv cs cs bcs = map (Pair FromNew) cs"
  unfolding merged_list_def
  by (rule children_loop_self [where i = 0]) (use assms in simp_all)

lemma withoutNils_map_rel:
  assumes "\<And>x. x \<in> set xs \<Longrightarrow> \<exists>y. f x = Inr (Some y) \<and> erase_start y = g x"
  shows "\<exists>ys. withoutNils_map f xs = Inr ys \<and> map erase_start ys = map g xs"
  using assms
proof (induction xs)
  case Nil
  show ?case by simp
next
  case (Cons x xs)
  from Cons.prems obtain y where y: "f x = Inr (Some y)" "erase_start y = g x" by auto
  from Cons.IH Cons.prems obtain ys where
    ys: "withoutNils_map f xs = Inr ys" "map erase_start ys = map g xs"
    by auto
  from y ys show ?case by (simp add: bind_err_def)
qed

lemma lookup_ser_table:
  assumes "\<forall>(k, v) \<in> set tbl. v = f k" "c \<in> fst ` set tbl"
  shows "lookup_ser tbl c = f c"
proof -
  from assms(2) obtain v where "map_of tbl c = Some v"
    by (metis domD dom_map_of_conv_image_fst)
  moreover from this have "(c, v) \<in> set tbl" by (rule map_of_SomeD)
  ultimately show ?thesis using assms(1) by (auto simp: lookup_ser_def)
qed

text \<open>Erasing the offsets changes neither the kind of a node nor the calls in it.\<close>

lemma erase_start_kind:
  "isExpression (erase_start n) = isExpression n"
  "is_jsx_element (erase_start n) = is_jsx_element n"
  "is_jsx_fragment (erase_start n) = is_jsx_fragment n"
  by (cases n; simp)+

lemma erase_start_same_kind:
  assumes "erase_start a = erase_start b"
  shows "isExpression a = isExpression b" and "is_jsx_element a = is_jsx_element b"
    and "is_jsx_fragment a = is_jsx_fragment b"
  using assms erase_start_kind [of a] erase_start_kind [of b] by simp_all

lemma erase_start_Identifier: "erase_start n = Identifier x \<longleftrightarrow> n = Identifier x"
  by (cases n) auto

lemma erase_start_member:
  "erase_start n = MemberExpression (Identifier a) (Identifier b)
     \<longleftrightarrow> n = MemberExpression (Identifier a) (Identifier b)"
  by (cases n) (auto simp: erase_start_Identifier)

lemma is_call_of_erase: "is_call_of name (erase_start n) = is_call_of name n"
  by (cases n) (simp_all add: calleeMatch_def memberExpressionMatch_iff erase_start_member)

lemma sub_nodes_erase: "sub_nodes (erase_start n) = map erase_start (sub_nodes n)"
  by (cases n) (auto split: option.splits)

lemma contains_call_erase: "contains_call name (erase_start n) = contains_call name n"
proof (induction name n rule: contains_call.induct)
  case (1 name n)
  have "list_ex (contains_call name) (map erase_start (sub_nodes n))
        = list_ex (contains_call name) (sub_nodes n)"
    using 1 by (simp add: list_ex_iff)
  then show ?case
    by (simp add: contains_call.simps [of name n] contains_call.simps [of name "erase_start n"]
          is_call_of_erase sub_nodes_erase)
qed

lemma contains_call_below_erase:
  assumes "erase_start a = erase_start b"
  shows "contains_call_below name a = contains_call_below name b"
proof -
  have "contains_call_below name (erase_start n) = contains_call_below name n" for n
    by (simp add: contains_call_below_def sub_nodes_erase list_ex_iff contains_call_erase)
  from this [of a] this [of b] assms show ?thesis by simp
qed

lemma mergedChildren_self:
  assumes "list_all (\<lambda>c. \<not> is_opaque c) (children_of n)"
    and "\<And>c. c \<in> set (children_of n)
           \<Longrightarrow> \<exists>r. lookup_ser tbl c = Inr (Some r) \<and> erase_start r = erase_start (rawNode c)"
  shows "\<exists>outs. mergedChildren tbl n n n nv ev bv = Inr outs
           \<and> map erase_start outs = map erase_start (map child_shape (children_of n))"
proof -
  have "\<exists>outs. withoutNils_map (child_output tbl) (map (Pair FromNew) (children_of n)) = Inr outs
          \<and> map erase_start outs
            = map (erase_start \<circ> child_shape \<circ> snd) (map (Pair FromNew) (children_of n))"
  proof (rule withoutNils_map_rel)
    fix oc assume "oc \<in> set (map (Pair FromNew) (children_of n))"
    then obtain c where c: "oc = (FromNew, c)" "c \<in> set (children_of n)" by auto
    with assms(1) have no: "\<not> is_opaque c" by (simp add: list_all_iff)
    from assms(2) [OF c(2)] obtain r where
      r: "lookup_ser tbl c = Inr (Some r)" "erase_start r = erase_start (rawNode c)"
      by auto
    note k = erase_start_same_kind [OF r(2)]
    from c no r k
    show "\<exists>y. child_output tbl oc = Inr (Some y)
              \<and> erase_start y = (erase_start \<circ> child_shape \<circ> snd) oc"
      by (simp add: child_output_def bind_err_def child_shape_def Let_def)
  qed
  then show ?thesis
    by (simp add: mergedChildren_def merged_list_self [OF assms(1)] comp_def)
qed

lemma clone_erase:
  assumes "\<And>n r. h n = Some r \<Longrightarrow> erase_start r = erase_start n"
  shows "erase_start (cloneDeepWithHook x h) = erase_start x"
proof (induction x)
  case (JSXAttribute nm v)
  then show ?case using assms
    by (cases v) (auto simp: with_hook_def split: option.splits)
next
  case (ReturnStatement cs a)
  then show ?case using assms
    by (cases a) (auto simp: with_hook_def split: option.splits)
qed (use assms in \<open>auto simp: with_hook_def split: option.splits\<close>)

lemma clone_identity:
  assumes "\<And>n r. h n = Some r \<Longrightarrow> r = n"
  shows "cloneDeepWithHook x h = x"
proof (induction x)
  case (JSXAttribute nm v)
  then show ?case using assms
    by (cases v) (auto simp: with_hook_def split: option.splits)
next
  case (ReturnStatement cs a)
  then show ?case using assms
    by (cases a) (auto simp: with_hook_def split: option.splits)
qed (use assms in \<open>auto simp: with_hook_def map_idI split: option.splits\<close>)

lemma showHook_same: "showHook True old old c = Some r \<Longrightarrow> r = c"
  by (cases c) (auto split: if_splits)

lemma mergeShowFunc_self:
  assumes "hasShowFuncCall V n = contains_call_below (''show'' @ nameInId n) clone"
  shows "mergeShowFunc n n V clone = Inr clone"
proof -
  have "rewrite_below (showHook True (''show'' @ nameInId n) (''show'' @ nameInId n)) clone
          = clone"
    by (simp add: rewrite_below_def clone_identity [OF showHook_same] with_sub_nodes_id)
  with assms show ?thesis
    by (simp add: mergeShowFunc_cases Let_def del: append.simps)
qed

lemma map_set_subset: "set (map_set k v m) \<subseteq> insert (k, v) (set m)"
  by (induction m) (auto split: if_splits)

lemma nodesToMerged_loop_self:
  assumes "\<forall>(n, r) \<in> set results. \<exists>m. r = Inr (Some m) \<and> erase_start m = erase_start (rawNode n)"
    and "\<forall>(k, v) \<in> set acc. erase_start v = erase_start k"
  shows "\<exists>m. nodesToMerged_loop results acc = Inr m
           \<and> (\<forall>(k, v) \<in> set m. erase_start v = erase_start k)"
  using assms
proof (induction results arbitrary: acc)
  case Nil
  then show ?case by simp
next
  case (Cons nr results)
  obtain n r where nr: "nr = (n, r)" by (cases nr)
  with Cons.prems(1) obtain m where r: "r = Inr (Some m)"
    and m: "erase_start m = erase_start (rawNode n)"
    by auto
  have "\<forall>(k, v) \<in> set (map_set (rawNode n) m acc). erase_start v = erase_start k"
    using Cons.prems(2) m map_set_subset [of "rawNode n" m acc] by auto
  from Cons.IH [OF _ this] Cons.prems(1) nr r show ?case
    by (simp add: bind_err_def)
qed

lemma serializeArg_self:
  assumes "\<forall>(n, r) \<in> set results. \<exists>m. r = Inr (Some m) \<and> erase_start m = erase_start (rawNode n)"
  shows "\<exists>r. serializeArg results raw = Inr (Some r) \<and> erase_start r = erase_start raw"
proof -
  from nodesToMerged_loop_self [OF assms, of "[]"] obtain m where
    m: "nodesToMerged_loop results [] = Inr m" "\<forall>(k, v) \<in> set m. erase_start v = erase_start k"
    by auto
  have "erase_start (cloneDeepWithHook raw (map_of m)) = erase_start raw"
  proof (rule clone_erase)
    fix n r assume "map_of m n = Some r"
    then have "(n, r) \<in> set m" by (rule map_of_SomeD)
    with m(2) show "erase_start r = erase_start n" by auto
  qed
  with m(1) show ?thesis by (simp add: serializeArg_def bind_err_def)
qed

lemma withMergedParts_self:
  assumes "is_jsx_element j" "map erase_start outs = map erase_start (jsx_children j)"
    and "jsx_children j = [] \<or> jsx_closing j"
  shows "\<exists>j'. withMergedParts j (jsx_attributes j) outs = Inr j'
           \<and> erase_start j' = erase_start j"
proof (cases j)
  case (JSXElement start nm attributes children closing)
  from assms(2) JSXElement have "length outs = length children"
    by (metis jsx_children.simps(1) length_map)
  then have "(outs \<noteq> []) = (children \<noteq> [])" by auto
  with assms(2,3) JSXElement show ?thesis by auto
qed (use assms(1) in simp_all)

lemma serialize_self:
  assumes "consistent V n" "no_opaque_children n"
  shows "\<exists>r. serializePlasmicASTNode n V V V = Inr (Some r)
           \<and> erase_start r = erase_start (rawNode n)"
  using assms
proof (induction n)
  case (TagOrComponent raw x j attrs cs)
  let ?n = "TagOrComponent raw x j attrs cs"
  let ?ser = "\<lambda>c. serializePlasmicASTNode c V V V"
  let ?tbl = "concat (map (\<lambda>a. case a of PNamed name v \<Rightarrow> [(v, ?ser v)] | PSpread _ \<Rightarrow> []) attrs)
              @ map (\<lambda>c. (c, ?ser c)) cs"
  from TagOrComponent.prems have ct: "consistent_tag V ?n"
    and cc: "\<And>c. c \<in> set cs \<Longrightarrow> consistent V c"
    and no: "list_all (\<lambda>c. \<not> is_opaque c) cs"
    and nc: "\<And>c. c \<in> set cs \<Longrightarrow> no_opaque_children c"
    by (auto simp: list_all_iff)
  have entries: "\<forall>(k, v) \<in> set ?tbl. v = ?ser k"
    by (auto split: pattr.splits)
  have look: "\<exists>r. lookup_ser ?tbl c = Inr (Some r) \<and> erase_start r = erase_start (rawNode c)"
    if "c \<in> set cs" for c
  proof -
    from that have "c \<in> fst ` set ?tbl" by force
    from lookup_ser_table [OF entries this] TagOrComponent.IH(2) [OF that cc [OF that] nc [OF that]]
    show ?thesis by simp
  qed
  from ct have f: "findNode V (getId V ?n) = Some ?n"
    and el: "is_jsx_element j"
    and ch: "jsx_children j = map child_shape cs"
    and cl: "cs = [] \<or> jsx_closing j"
    and sh: "hasShowFuncCall V ?n = contains_call_below (''show'' @ nameInId ?n) (rawNode ?n)"
    unfolding consistent_tag_def by simp_all
  have a: "mergeAttributes ?tbl ?n ?n ?n V = Inr (jsx_attributes j)"
    using mergeAttributes_self [OF ct, of ?tbl] by simp
  from mergedChildren_self [of ?n ?tbl V V V] no look obtain outs where
    c: "mergedChildren ?tbl ?n ?n ?n V V V = Inr outs"
    and o: "map erase_start outs = map erase_start (map child_shape cs)"
    by auto
  from withMergedParts_self [OF el, of outs] o ch cl obtain j' where
    w: "withMergedParts j (jsx_attributes j) outs = Inr j'"
    and j': "erase_start j' = erase_start j"
    by auto
  let ?clone = "cloneDeepWithHook raw (\<lambda>n. if n = j then Some j' else None)"
  have cln: "erase_start ?clone = erase_start raw"
    by (rule clone_erase) (use j' in \<open>auto split: if_splits\<close>)
  from sh contains_call_below_erase [OF cln, of "''show'' @ x"]
  have "hasShowFuncCall V ?n = contains_call_below (''show'' @ nameInId ?n) ?clone"
    by simp
  then have m: "mergeShowFunc ?n ?n V ?clone = Inr ?clone"
    by (rule mergeShowFunc_self)
  from cln show ?case
    by (simp add: serializeTagOrComponent_def Let_def f a c w m bind_err_def
          del: append.simps)
next
  case (Arg a jsxNodes raw)
  have "\<forall>(n, r) \<in> set (map (\<lambda>n. (n, serializePlasmicASTNode n V V V)) jsxNodes).
          \<exists>m. r = Inr (Some m) \<and> erase_start m = erase_start (rawNode n)"
    using Arg by (auto simp: list_all_iff)
  from serializeArg_self [OF this] show ?case by simp
qed simp_all

lemma mset_dbl: "mset (dbl xs) = mset xs + mset xs"
  by (induction xs) simp_all

lemma set_dbl [simp]: "set (dbl xs) = set xs"
  by (induction xs) auto

lemma filter_dbl: "filter P (dbl xs) = dbl (filter P xs)"
  by (induction xs) simp_all

lemma sorted_dbl: "sorted (map f xs) \<Longrightarrow> sorted (map f (dbl xs))"
  by (induction xs) auto

lemma filter_distinct_key:
  assumes "distinct (map f xs)" "k \<in> set xs"
  shows "filter (\<lambda>x. f k = f x) xs = [k]"
  using assms
proof (induction xs)
  case Nil
  then show ?case by simp
next
  case (Cons a xs)
  show ?case
  proof (cases "k = a")
    case True
    have "filter (\<lambda>x. f a = f x) xs = []"
      using Cons.prems(1) by (auto simp: filter_empty_conv)
    with True show ?thesis by simp
  next
    case False
    with Cons.prems have k: "k \<in> set xs" by simp
    from Cons.prems(1) have "f a \<notin> f ` set xs" by simp
    with k have "f k \<noteq> f a" by (metis imageI)
    with Cons.IH k Cons.prems(1) show ?thesis by simp
  qed
qed

lemma sort_key_twice:
  assumes "distinct (map f xs)"
  shows "sort_key f (xs @ xs) = dbl (sort_key f xs)"
proof (rule properties_for_sort_key)
  show "mset (dbl (sort_key f xs)) = mset (xs @ xs)"
    by (simp add: mset_dbl)
  show "sorted (map f (dbl (sort_key f xs)))"
    by (rule sorted_dbl) simp
next
  fix k assume "k \<in> set (dbl (sort_key f xs))"
  then have k: "k \<in> set xs" by simp
  have d: "distinct (map f (sort_key f xs))"
    using assms by (simp add: distinct_map)
  have "filter (\<lambda>x. f k = f x) (sort_key f xs) = [k]"
    by (rule filter_distinct_key [OF d]) (simp add: k)
  moreover have "filter (\<lambda>x. f k = f x) xs = [k]"
    by (rule filter_distinct_key [OF assms k])
  ultimately show "filter (\<lambda>x. f k = f x) (dbl (sort_key f xs)) = filter (\<lambda>x. f k = f x) (xs @ xs)"
    by (simp add: filter_dbl)
qed

lemma mergeImports_self:
  assumes "no_namespace d"
  shows "mergeImports d d = d"
proof -
  have "already_has d s" if "s \<in> set (specifiers d)" for s
  proof (cases s)
    case (ImportNamespaceSpecifier l)
    with that assms show ?thesis by (auto simp: no_namespace_def list_all_iff)
  qed (use that in auto)
  then have "filter (\<lambda>s. \<not> already_has d s) (specifiers d) = []"
    by (simp add: filter_empty_conv)
  then show ?thesis by (simp add: mergeImports_spec mergeSpecifiers_def)
qed

lemma merge_pass_dbl:
  assumes "\<forall>s \<in> set zs. no_namespace (spec_node s)"
  shows "merge_pass (dbl zs) = map spec_node zs"
  using assms by (induction zs) (simp_all add: compareImports_eq mergeImports_self)

lemma mergedImports_self:
  assumes "distinct (map spec_key (extractPlasmicImports f))"
    and "\<forall>s \<in> set (extractPlasmicImports f). no_namespace (spec_node s)"
  shows "mergedImports f f
         = map (\<lambda>s. spec_node (dropLeadingComments s)) (sort_imports (extractPlasmicImports f))"
proof -
  let ?xs = "extractPlasmicImports f"
  have m: "map g (dbl ys) = dbl (map g ys)" for g :: "ImportDeclaration PlasmicImportSpec \<Rightarrow> ImportDeclaration PlasmicImportSpec"
      and ys
    by (induction ys) simp_all
  have nn: "\<forall>s \<in> set (map dropLeadingComments (sort_key spec_key ?xs)). no_namespace (spec_node s)"
    using assms(2) by (auto simp: dropLeadingComments_def no_namespace_def)
  show ?thesis
    unfolding mergedImports_def Let_def sort_imports_key sort_key_twice [OF assms(1)] m
    using merge_pass_dbl [OF nn] by simp
qed

text \<open>
  Claim C9, as the code has it. For a version \<open>V\<close> whose tree is as the parser builds it
  and in which no tag has an opaque child, the serializer run with \<open>V\<close> as the new, the
  edited and the base version returns the markup of the tree: a node deep-equal to the
  raw node, with its attributes, children and visibility calls, in which the cloned
  elements have no \<^verbatim>\<open>start\<close> offset. For a file whose managed imports
  have pairwise different \<open>(id, type)\<close> and no namespace specifier, the import merger run
  on the file and itself yields the managed imports of the file, sorted by \<open>(id, type)\<close>,
  with their leading comments dropped.
\<close>

theorem self_merge_is_identity:
  "(consistent V n \<and> no_opaque_children n
      \<longrightarrow> yields_markup (serializePlasmicASTNode n V V V) (rawNode n))
   \<and> (distinct (map spec_key (extractPlasmicImports f))
        \<and> (\<forall>s \<in> set (extractPlasmicImports f). no_namespace (spec_node s))
      \<longrightarrow> mergedImports f f
            = map (\<lambda>s. spec_node (dropLeadingComments s))
                (sort_imports (extractPlasmicImports f)))"
proof (intro conjI impI)
  assume "consistent V n \<and> no_opaque_children n"
  then obtain r where "serializePlasmicASTNode n V V V = Inr (Some r)"
    "erase_start r = erase_start (rawNode n)"
    using serialize_self [of V n] by auto
  then show "yields_markup (serializePlasmicASTNode n V V V) (rawNode n)"
    by (simp add: yields_markup_def nodesDeepEqualIgnoreComments_def)
next
  assume "distinct (map spec_key (extractPlasmicImports f))
        \<and> (\<forall>s \<in> set (extractPlasmicImports f). no_namespace (spec_node s))"
  then show "mergedImports f f
            = map (\<lambda>s. spec_node (dropLeadingComments s))
                (sort_imports (extractPlasmicImports f))"
    by (intro mergedImports_self) simp_all
qed

theorem self_merge_is_identity_witness:
  "consistent nested_version nested_tag
   \<and> no_opaque_children nested_tag
   \<and> yields_markup
        (serializePlasmicASTNode nested_tag nested_version nested_version nested_version)
        nested_element
   \<and> serializePlasmicASTNode nested_tag nested_version nested_version nested_version
      = Inr (Some
          (JSXElement None (JSXIdentifier ''div'')
             [classNameAttr ''Root'',
              JSXAttribute (JSXIdentifier ''title'') (Some (StringLiteral ''t''))]
             [JSXElement None (JSXIdentifier ''p'') [classNameAttr ''P''] [JSXText ''hello'']
                True]
             True))
   \<and> distinct (map spec_key (extractPlasmicImports self_merge_file))
   \<and> list_all (\<lambda>s. no_namespace (spec_node s)) (extractPlasmicImports self_merge_file)
   \<and> mergedImports self_merge_file self_merge_file
      = [(s7_import [''A'', ''B''])\<lparr>leadingComments := None\<rparr>]"
proof -
  have a: "consistent nested_version nested_tag" by code_simp
  have b: "no_opaque_children nested_tag" by code_simp
  have c: "rawNode nested_tag = nested_element" by (simp add: nested_tag_def)
  have v: "serializePlasmicASTNode nested_tag nested_version nested_version nested_version
      = Inr (Some
          (JSXElement None (JSXIdentifier ''div'')
             [classNameAttr ''Root'',
              JSXAttribute (JSXIdentifier ''title'') (Some (StringLiteral ''t''))]
             [JSXElement None (JSXIdentifier ''p'') [classNameAttr ''P''] [JSXText ''hello'']
                True]
             True))"
    by code_simp
  have d: "distinct (map spec_key (extractPlasmicImports self_merge_file))" by code_simp
  have e: "list_all (\<lambda>s. no_namespace (spec_node s)) (extractPlasmicImports self_merge_file)"
    by code_simp
  have g: "map (\<lambda>s. spec_node (dropLeadingComments s))
             (sort_imports (extractPlasmicImports self_merge_file))
           = [(s7_import [''A'', ''B''])\<lparr>leadingComments := None\<rparr>]"
    by code_simp
  from e have e': "\<forall>s \<in> set (extractPlasmicImports self_merge_file). no_namespace (spec_node s)"
    by (simp add: list_all_iff)
  from self_merge_is_identity [of nested_version nested_tag self_merge_file] a b c d e' g
  have "yields_markup
        (serializePlasmicASTNode nested_tag nested_version nested_version nested_version)
        nested_element"
    and "mergedImports self_merge_file self_merge_file
      = [(s7_import [''A'', ''B''])\<lparr>leadingComments := None\<rparr>]"
    by metis+
  with a b v d e show ?thesis by blast
qed

theorem opaque_child_duplicated_counterexample:
  "consistent (example_version opaque_child_tag) opaque_child_tag
   \<and> rawNode opaque_child_tag = opaque_child_element [JSXExpressionContainer (Identifier ''x'')]
   \<and> serializePlasmicASTNode opaque_child_tag (example_version opaque_child_tag)
        (example_version opaque_child_tag) (example_version opaque_child_tag)
      = Inr (Some (JSXElement None (JSXIdentifier ''p'') [classNameAttr ''P'']
                     [JSXExpressionContainer (Identifier ''x''),
                      JSXExpressionContainer (Identifier ''x'')] True))
   \<and> \<not> yields_markup
          (serializePlasmicASTNode opaque_child_tag (example_version opaque_child_tag)
             (example_version opaque_child_tag) (example_version opaque_child_tag))
          (rawNode opaque_child_tag)"
  by code_simp

subsection \<open>What the import merger does to the objects of its input\<close>

lemma take_eq_length: "take n xs = ys \<Longrightarrow> length ys = n \<Longrightarrow> n \<le> length xs"
  by (metis length_take min.cobounded1 min.commute)

lemma extends_refl: "extends st st"
  by (simp add: extends_def)

lemma extends_length:
  assumes "extends st st'"
  shows "length (declarations st) \<le> length (declarations st')"
  using assms unfolding extends_def by (metis take_eq_length)

lemma extends_length_specifiers:
  assumes "extends st st'"
  shows "length (specifier_objects st) \<le> length (specifier_objects st')"
  using assms unfolding extends_def by (metis take_eq_length)

lemma take_take_le: "n \<le> m \<Longrightarrow> take m xs = ys \<Longrightarrow> take n xs = take n ys"
  by (metis min.absorb1 take_take)

lemma extends_trans:
  assumes "extends st st'" "extends st' st''"
  shows "extends st st''"
proof -
  have d: "take (length (declarations st)) (declarations st'') = declarations st"
    using assms extends_length [OF assms(1)]
    unfolding extends_def by (metis take_take_le)
  have s: "take (length (specifier_objects st)) (specifier_objects st'') = specifier_objects st"
    using assms extends_length_specifiers [OF assms(1)]
    unfolding extends_def by (metis take_take_le)
  from d s show ?thesis by (simp add: extends_def)
qed

lemma extends_nth:
  assumes "extends st st'" "a < length (declarations st)"
  shows "declarations st' ! a = declarations st ! a"
  using assms unfolding extends_def by (metis nth_take)

lemma foldl_null_length:
  "length (declarations (foldl (\<lambda>s d. set_leadingComments_null s (spec_node d)) st xs))
     = length (declarations st)
   \<and> specifier_objects (foldl (\<lambda>s d. set_leadingComments_null s (spec_node d)) st xs)
     = specifier_objects st"
  by (induction xs arbitrary: st) (simp_all add: set_leadingComments_null_def)

lemma foldl_null_nth:
  assumes "b < length (declarations st)"
  shows "declarations (foldl (\<lambda>s d. set_leadingComments_null s (spec_node d)) st xs) ! b
         = (if b \<in> spec_node ` set xs
            then (declarations st ! b)\<lparr>obj_leadingComments := None\<rparr>
            else declarations st ! b)"
  using assms
proof (induction xs arbitrary: st)
  case Nil
  then show ?case by simp
next
  case (Cons x xs)
  let ?st1 = "set_leadingComments_null st (spec_node x)"
  have l: "b < length (declarations ?st1)"
    using Cons.prems by (simp add: set_leadingComments_null_def)
  have n: "declarations ?st1 ! b
           = (if b = spec_node x then (declarations st ! b)\<lparr>obj_leadingComments := None\<rparr>
              else declarations st ! b)"
    using Cons.prems by (simp add: set_leadingComments_null_def)
  have "declarations (foldl (\<lambda>s d. set_leadingComments_null s (spec_node d)) ?st1 xs) ! b
        = (if b \<in> spec_node ` set xs
           then (declarations ?st1 ! b)\<lparr>obj_leadingComments := None\<rparr>
           else declarations ?st1 ! b)"
    by (rule Cons.IH [OF l])
  also have "\<dots> = (if b \<in> spec_node ` set (x # xs)
                    then (declarations st ! b)\<lparr>obj_leadingComments := None\<rparr>
                    else declarations st ! b)"
    unfolding n by auto
  finally show ?case by simp
qed

lemma push_specifier_props:
  assumes "n \<le> cloned"
  shows "take n (declarations (push_specifier st cloned s)) = take n (declarations st)"
    and "specifier_objects (push_specifier st cloned s) = specifier_objects st"
    and "length (declarations (push_specifier st cloned s)) = length (declarations st)"
  using assms by (simp_all add: push_specifier_def)

lemma mergeImports_st_loop_props:
  assumes "n \<le> cloned"
  shows "take n (declarations (mergeImports_st_loop st i1 ss cloned)) = take n (declarations st)
         \<and> specifier_objects (mergeImports_st_loop st i1 ss cloned) = specifier_objects st
         \<and> length (declarations (mergeImports_st_loop st i1 ss cloned))
           = length (declarations st)"
proof (induction ss arbitrary: st)
  case Nil
  show ?case by simp
next
  case (Cons s2 ss)
  note p = push_specifier_props [OF assms, of st s2]
  note a = Cons.IH [of st]
  note b = Cons.IH [of "push_specifier st cloned s2"]
  show ?case
    using a b p by (simp split: specifier.splits)
qed

lemma mergeImports_st_props:
  assumes "mergeImports_st st a b = (st', c)"
  shows "extends st st'" and "c = length (declarations st)"
proof -
  obtain st1 where c: "cloneDeep_declaration st a = (st1, c)"
    and st': "st' = mergeImports_st_loop st1 a (obj_specifiers (declarations st1 ! b)) c"
    using assms by (auto simp: mergeImports_st_def split: prod.splits)
  from c show cl: "c = length (declarations st)"
    by (auto simp: cloneDeep_declaration_def Let_def)
  from c have e1: "take (length (declarations st)) (declarations st1) = declarations st"
    "take (length (specifier_objects st)) (specifier_objects st1) = specifier_objects st"
    by (auto simp: cloneDeep_declaration_def Let_def)
  from mergeImports_st_loop_props [of "length (declarations st)" c st1 a
         "obj_specifiers (declarations st1 ! b)"] cl st'
  have "take (length (declarations st)) (declarations st') = take (length (declarations st)) (declarations st1)"
    "specifier_objects st' = specifier_objects st1"
    by simp_all
  with e1 show "extends st st'" by (simp add: extends_def)
qed

lemma merge_pass_st_props:
  assumes "merge_pass_st st xs = (st', out)"
  shows "extends st st' \<and> set out \<subseteq> spec_node ` set xs \<union> {a. length (declarations st) \<le> a}"
  using assms
proof (induction st xs arbitrary: st' out rule: merge_pass_st.induct)
  case (1 st)
  then show ?case by (simp add: extends_refl)
next
  case (2 st a)
  then show ?case by (auto simp: extends_refl)
next
  case (3 st a b rest)
  show ?case
  proof (cases "compareImports a b = 0")
    case True
    obtain st1 c where m: "mergeImports_st st (spec_node a) (spec_node b) = (st1, c)"
      by (cases "mergeImports_st st (spec_node a) (spec_node b)")
    obtain st2 out2 where r: "merge_pass_st st1 rest = (st2, out2)"
      by (cases "merge_pass_st st1 rest")
    from "3.prems" True m r have eq: "st' = st2" "out = c # out2" by simp_all
    note e1 = mergeImports_st_props [OF m]
    from "3.IH"(1) [OF True m [symmetric] r]
    have e2: "extends st1 st2"
      and o2: "set out2 \<subseteq> spec_node ` set rest \<union> {a. length (declarations st1) \<le> a}"
      by simp_all
    from extends_length [OF e1(1)] o2
    have "set out2 \<subseteq> spec_node ` set rest \<union> {a. length (declarations st) \<le> a}"
      by auto
    with e1 e2 eq show ?thesis
      by (auto intro: extends_trans)
  next
    case False
    obtain st1 out1 where r: "merge_pass_st st (b # rest) = (st1, out1)"
      by (cases "merge_pass_st st (b # rest)")
    from "3.prems" False r have eq: "st' = st1" "out = spec_node a # out1" by simp_all
    from "3.IH"(2) [OF False r] eq show ?thesis by auto
  qed
qed

lemma filter_body_st_subset: "set (fst (filter_body_st st b i fi fp)) \<subseteq> set b"
  by (induction st b i fi fp rule: filter_body_st.induct)
     (auto simp: Let_def split: prod.splits)

lemma set_sort_imports: "set (sort_imports xs) = set xs"
  by (simp add: sort_imports_key)

lemma mergePlasmicImports_st_frame:
  assumes "mergePlasmicImports_st st mergedFile parsedNew parsedEdited = (st', body')"
  shows "extends (foldl (\<lambda>s d. set_leadingComments_null s (spec_node d)) st
                    (sort_imports (extractPlasmicImports_st st parsedEdited
                                   @ extractPlasmicImports_st st parsedNew))) st'"
    and "\<And>a. ImportRef a \<in> set body' \<Longrightarrow>
           ImportRef a \<in> set mergedFile \<or> a \<in> managed_imports st parsedNew parsedEdited
           \<or> length (declarations st) \<le> a"
proof -
  let ?all = "sort_imports (extractPlasmicImports_st st parsedEdited
                            @ extractPlasmicImports_st st parsedNew)"
  let ?st1 = "foldl (\<lambda>s d. set_leadingComments_null s (spec_node d)) st ?all"
  obtain body fi fp where f: "filter_body_st st mergedFile 0 (-1) (-1) = (body, fi, fp)"
    by (cases "filter_body_st st mergedFile 0 (-1) (-1)")
  obtain st2 out where m: "merge_pass_st ?st1 ?all = (st2, out)"
    by (cases "merge_pass_st ?st1 ?all")
  let ?k = "nat (if fp > -1 then fp else if fi > -1 then fi else 0)"
  from assms f m have eq: "st' = st2" "body' = take ?k body @ map ImportRef out @ drop ?k body"
    by (simp_all add: mergePlasmicImports_st_def Let_def)
  note p = merge_pass_st_props [OF m]
  from p eq show "extends ?st1 st'" by simp
  fix a assume "ImportRef a \<in> set body'"
  with eq have "ImportRef a \<in> set body \<or> a \<in> set out"
    by (auto dest: in_set_takeD in_set_dropD)
  then show "ImportRef a \<in> set mergedFile \<or> a \<in> managed_imports st parsedNew parsedEdited
           \<or> length (declarations st) \<le> a"
  proof
    assume "ImportRef a \<in> set body"
    with filter_body_st_subset [of st mergedFile 0 "-1" "-1"] f show ?thesis by auto
  next
    assume "a \<in> set out"
    with p have "a \<in> spec_node ` set ?all \<or> length (declarations ?st1) \<le> a" by auto
    then show ?thesis
      by (auto simp: managed_imports_def set_sort_imports foldl_null_length)
  qed
qed

text \<open>
  Claim C3, as the code has it, for the import declarations. A run of the import merger
  changes no specifier object, and it changes a declaration object of its input only if
  that is a managed import of the new or of the edited file, and then only by setting
  its leading comments to \<^verbatim>\<open>null\<close>. Every declaration that the body of the merged file
  refers to afterwards is one the merged file referred to before, or a managed import of
  the new or of the edited file itself, or an object made by the run.
\<close>

theorem import_merger_frame:
  "mergePlasmicImports_st st mergedFile parsedNew parsedEdited = (st', body') \<longrightarrow>
     take (length (specifier_objects st)) (specifier_objects st') = specifier_objects st
     \<and> length (declarations st) \<le> length (declarations st')
     \<and> (\<forall>a < length (declarations st).
           declarations st' ! a
           = (if a \<in> managed_imports st parsedNew parsedEdited
              then (declarations st ! a)\<lparr>obj_leadingComments := None\<rparr>
              else declarations st ! a))
     \<and> (\<forall>a. ImportRef a \<in> set body' \<longrightarrow>
           ImportRef a \<in> set mergedFile \<or> a \<in> managed_imports st parsedNew parsedEdited
           \<or> length (declarations st) \<le> a)"
proof (intro impI conjI allI)
  assume run: "mergePlasmicImports_st st mergedFile parsedNew parsedEdited = (st', body')"
  let ?all = "sort_imports (extractPlasmicImports_st st parsedEdited
                            @ extractPlasmicImports_st st parsedNew)"
  let ?st1 = "foldl (\<lambda>s d. set_leadingComments_null s (spec_node d)) st ?all"
  note e = mergePlasmicImports_st_frame(1) [OF run]
  note l = foldl_null_length [of st ?all]
  from e l show "take (length (specifier_objects st)) (specifier_objects st') = specifier_objects st"
    by (simp add: extends_def)
  from extends_length [OF e] l show "length (declarations st) \<le> length (declarations st')"
    by simp
  {
    fix a assume a: "a < length (declarations st)"
    with l have "a < length (declarations ?st1)" by simp
    from extends_nth [OF e this] foldl_null_nth [OF a, of ?all]
    show "declarations st' ! a
           = (if a \<in> managed_imports st parsedNew parsedEdited
              then (declarations st ! a)\<lparr>obj_leadingComments := None\<rparr>
              else declarations st ! a)"
      by (simp add: managed_imports_def set_sort_imports)
  }
  {
    fix a assume "ImportRef a \<in> set body'"
    then show "ImportRef a \<in> set mergedFile \<or> a \<in> managed_imports st parsedNew parsedEdited
           \<or> length (declarations st) \<le> a"
      by (rule mergePlasmicImports_st_frame(2) [OF run])
  }
qed

theorem import_merger_frame_witness:
  "mergePlasmicImports_st (example_store ''7'') [ImportRef 2] [ImportRef 1] [ImportRef 0]
     = (merged_store, [ImportRef 3])
   \<and> take 3 (specifier_objects merged_store) = specifier_objects (example_store ''7'')
   \<and> declarations merged_store ! 1
     = (declarations (example_store ''7'') ! 1)\<lparr>obj_leadingComments := None\<rparr>
   \<and> declarations merged_store ! 2 = declarations (example_store ''7'') ! 2
   \<and> length (declarations (example_store ''7'')) \<le> 3"
proof -
  let ?E = "example_store ''7''"
  have r: "mergePlasmicImports_st ?E [ImportRef 2] [ImportRef 1] [ImportRef 0]
             = (merged_store, [ImportRef 3])"
    by code_simp
  have m1: "1 \<in> managed_imports ?E [ImportRef 1] [ImportRef 0]"
    by (simp add: managed_imports_def) code_simp
  have m2: "2 \<notin> managed_imports ?E [ImportRef 1] [ImportRef 0]"
    by (simp add: managed_imports_def) code_simp
  have m3: "3 \<notin> managed_imports ?E [ImportRef 1] [ImportRef 0]"
    by (simp add: managed_imports_def) code_simp
  have l: "length (declarations ?E) = 3" "length (specifier_objects ?E) = 3"
    by (simp_all add: example_store_def)
  from import_merger_frame [of ?E "[ImportRef 2]" "[ImportRef 1]" "[ImportRef 0]"
         merged_store "[ImportRef 3]"] r
  have f1: "take (length (specifier_objects ?E)) (specifier_objects merged_store)
            = specifier_objects ?E"
    and f3: "\<forall>a < length (declarations ?E).
           declarations merged_store ! a
           = (if a \<in> managed_imports ?E [ImportRef 1] [ImportRef 0]
              then (declarations ?E ! a)\<lparr>obj_leadingComments := None\<rparr>
              else declarations ?E ! a)"
    and f4: "\<forall>a. ImportRef a \<in> set [ImportRef 3] \<longrightarrow>
           ImportRef a \<in> set [ImportRef 2] \<or> a \<in> managed_imports ?E [ImportRef 1] [ImportRef 0]
           \<or> length (declarations ?E) \<le> a"
    by blast+
  from f3 have "1 < length (declarations ?E) \<longrightarrow>
           declarations merged_store ! 1
           = (if 1 \<in> managed_imports ?E [ImportRef 1] [ImportRef 0]
              then (declarations ?E ! 1)\<lparr>obj_leadingComments := None\<rparr>
              else declarations ?E ! 1)"
    by blast
  with l(1) m1 have g1: "declarations merged_store ! 1
     = (declarations ?E ! 1)\<lparr>obj_leadingComments := None\<rparr>"
    by simp
  from f3 have "2 < length (declarations ?E) \<longrightarrow>
           declarations merged_store ! 2
           = (if 2 \<in> managed_imports ?E [ImportRef 1] [ImportRef 0]
              then (declarations ?E ! 2)\<lparr>obj_leadingComments := None\<rparr>
              else declarations ?E ! 2)"
    by blast
  with l(1) m2 have g2: "declarations merged_store ! 2 = declarations ?E ! 2"
    by simp
  from f4 m3 have g3: "length (declarations ?E) \<le> 3" by simp
  from r f1 l(2) g1 g2 g3 show ?thesis by simp
qed

theorem import_declarations_mutated_counterexample:
  "mergePlasmicImports_st (example_store ''8'') [ImportRef 2] [ImportRef 1] [ImportRef 0]
     = ((example_store ''8'')
          \<lparr>declarations :=
             [(import_object 0 ''7'')\<lparr>obj_leadingComments := None\<rparr>,
              (import_object 1 ''8'')\<lparr>obj_leadingComments := None\<rparr>,
              import_object 2 ''7'']\<rparr>,
        [ImportRef 0, ImportRef 1])
   \<and> obj_leadingComments (declarations (example_store ''8'') ! 1) = Some [Comment ''c'']"
  by code_simp

subsection \<open>The import merger on the store computes the import merger on the values\<close>

lemma extractPlasmicImports_at:
  "extractPlasmicImports (file_at st b) = map (spec_at st) (extractPlasmicImports_st st b)"
  by (induction st b rule: extractPlasmicImports_st.induct)
     (auto simp: file_at_def spec_at_def split: option.splits)

lemma extractPlasmicImports_st_valid:
  assumes "valid_file st b" "x \<in> set (extractPlasmicImports_st st b)"
  shows "valid_ref st (spec_node x)"
  using assms
  by (induction st b rule: extractPlasmicImports_st.induct)
     (auto simp: valid_file_def split: option.splits)

lemma extractPlasmicImports_st_managed:
  assumes "x \<in> set (extractPlasmicImports_st st b)"
  shows "tryParsePlasmicImportSpec (declaration_at st (spec_node x)) \<noteq> None"
  using assms
  by (induction st b rule: extractPlasmicImports_st.induct)
     (auto split: option.splits)

lemma compareImports_at [simp]:
  "compareImports (spec_at st x) (spec_at st y) = compareImports x y"
  by (simp add: compareImports_def spec_at_def split: option.splits)

lemma insort_imports_at:
  "insort_imports (spec_at st x) (map (spec_at st) ys) = map (spec_at st) (insort_imports x ys)"
  by (induction ys) simp_all

lemma sort_imports_at:
  "sort_imports (map (spec_at st) xs) = map (spec_at st) (sort_imports xs)"
  by (induction xs) (simp_all add: sort_imports_def insort_imports_at)

lemma extends_declaration_at:
  assumes "extends st st'" "valid_ref st a"
  shows "declaration_at st' a = declaration_at st a" and "valid_ref st' a"
proof -
  from assms have a: "a < length (declarations st)"
    and s: "\<And>s. s \<in> set (obj_specifiers (declarations st ! a))
                \<Longrightarrow> s < length (specifier_objects st)"
    by (simp_all add: valid_ref_def list_all_iff)
  have d: "declarations st' ! a = declarations st ! a"
    by (rule extends_nth [OF assms(1) a])
  have n: "specifier_objects st' ! s = specifier_objects st ! s"
    if "s < length (specifier_objects st)" for s
    using assms(1) that unfolding extends_def by (metis nth_take)
  have "map ((!) (specifier_objects st')) (obj_specifiers (declarations st ! a))
        = map ((!) (specifier_objects st)) (obj_specifiers (declarations st ! a))"
    by (rule map_cong [OF refl]) (use s n in auto)
  with d show "declaration_at st' a = declaration_at st a"
    by (simp add: declaration_at_def Let_def)
  from extends_length [OF assms(1)] extends_length_specifiers [OF assms(1)] a s d
  show "valid_ref st' a"
    by (fastforce simp: valid_ref_def list_all_iff)
qed

lemma null_declaration_at:
  assumes "valid_ref st a"
  shows "declaration_at (foldl (\<lambda>s d. set_leadingComments_null s (spec_node d)) st xs) a
         = (if a \<in> spec_node ` set xs
            then (declaration_at st a)\<lparr>leadingComments := None\<rparr>
            else declaration_at st a)"
    and "valid_ref (foldl (\<lambda>s d. set_leadingComments_null s (spec_node d)) st xs) a"
proof -
  from assms have a: "a < length (declarations st)" by (simp add: valid_ref_def)
  note n = foldl_null_nth [OF a, of xs]
  note l = foldl_null_length [of st xs]
  from n l show "declaration_at (foldl (\<lambda>s d. set_leadingComments_null s (spec_node d)) st xs) a
         = (if a \<in> spec_node ` set xs
            then (declaration_at st a)\<lparr>leadingComments := None\<rparr>
            else declaration_at st a)"
    by (simp add: declaration_at_def Let_def)
  from n l assms
  show "valid_ref (foldl (\<lambda>s d. set_leadingComments_null s (spec_node d)) st xs) a"
    by (simp add: valid_ref_def)
qed

lemma nth_append_upt:
  "map ((!) (xs @ ys)) [length xs ..< length xs + length ys] = ys"
  by (rule nth_equalityI) (simp_all add: nth_append)

lemma cloneDeep_declaration_at:
  assumes "cloneDeep_declaration st a = (st1, c)" "valid_ref st a"
  shows "declaration_at st1 c = declaration_at st a" and "extends st st1"
    and "c = length (declarations st)" and "valid_ref st1 c"
proof -
  let ?ob = "declarations st ! a"
  let ?copies = "map ((!) (specifier_objects st)) (obj_specifiers ?ob)"
  let ?n = "length (specifier_objects st)"
  from assms(1) have c: "c = length (declarations st)"
    and d: "declarations st1
            = declarations st @ [?ob\<lparr>obj_specifiers := [?n ..< ?n + length ?copies]\<rparr>]"
    and s: "specifier_objects st1 = specifier_objects st @ ?copies"
    by (auto simp: cloneDeep_declaration_def Let_def)
  from c show "c = length (declarations st)" .
  from d s show "extends st st1" by (simp add: extends_def)
  from c d have o: "declarations st1 ! c = ?ob\<lparr>obj_specifiers := [?n ..< ?n + length ?copies]\<rparr>"
    by simp
  from nth_append_upt [of "specifier_objects st" ?copies]
  have "map ((!) (specifier_objects st @ ?copies)) [?n ..< ?n + length ?copies] = ?copies" .
  with o s show "declaration_at st1 c = declaration_at st a"
    by (simp add: declaration_at_def Let_def)
  from c d o s show "valid_ref st1 c"
    by (simp add: valid_ref_def list_all_iff)
qed

lemma push_specifier_at:
  assumes "c < length (declarations st)"
  shows "declaration_at (push_specifier st c s2) c
         = (declaration_at st c)
             \<lparr>specifiers := specifiers (declaration_at st c) @ [specifier_objects st ! s2]\<rparr>"
    and "a \<noteq> c \<Longrightarrow> declaration_at (push_specifier st c s2) a = declaration_at st a"
    and "specifier_objects (push_specifier st c s2) = specifier_objects st"
    and "length (declarations (push_specifier st c s2)) = length (declarations st)"
    and "valid_ref st c \<Longrightarrow> s2 < length (specifier_objects st)
         \<Longrightarrow> valid_ref (push_specifier st c s2) c"
  using assms
  by (simp_all add: push_specifier_def declaration_at_def Let_def valid_ref_def)

lemma mergeImports_st_loop_at:
  assumes "a \<noteq> c" "c < length (declarations st)" "valid_ref st c"
    and "list_all (\<lambda>s. s < length (specifier_objects st)) ss"
  shows "declaration_at (mergeImports_st_loop st a ss c) c
         = mergeImports_loop (declaration_at st a) (map ((!) (specifier_objects st)) ss)
             (declaration_at st c)
         \<and> valid_ref (mergeImports_st_loop st a ss c) c"
  using assms(2-)
proof (induction ss arbitrary: st)
  case Nil
  then show ?case by simp
next
  case (Cons s2 ss)
  let ?p = "push_specifier st c s2"
  note pa = push_specifier_at [OF Cons.prems(1), where ?s2.0 = s2]
  from Cons.prems have s2: "s2 < length (specifier_objects st)"
    and ss: "list_all (\<lambda>s. s < length (specifier_objects st)) ss"
    by simp_all
  have keep: "declaration_at (mergeImports_st_loop st a ss c) c
         = mergeImports_loop (declaration_at st a) (map ((!) (specifier_objects st)) ss)
             (declaration_at st c)
         \<and> valid_ref (mergeImports_st_loop st a ss c) c"
    by (rule Cons.IH [OF Cons.prems(1,2) ss])
  have "declaration_at (mergeImports_st_loop ?p a ss c) c
         = mergeImports_loop (declaration_at ?p a) (map ((!) (specifier_objects ?p)) ss)
             (declaration_at ?p c)
         \<and> valid_ref (mergeImports_st_loop ?p a ss c) c"
    by (rule Cons.IH) (use pa Cons.prems s2 ss in simp_all)
  with pa(1) pa(2) [OF assms(1)] pa(3)
  have push: "declaration_at (mergeImports_st_loop ?p a ss c) c
         = mergeImports_loop (declaration_at st a) (map ((!) (specifier_objects st)) ss)
             ((declaration_at st c)
               \<lparr>specifiers := specifiers (declaration_at st c) @ [specifier_objects st ! s2]\<rparr>)
         \<and> valid_ref (mergeImports_st_loop ?p a ss c) c"
    by simp
  show ?case
  proof (cases "specifier_objects st ! s2")
    case (ImportDefaultSpecifier l)
    with keep push show ?thesis by simp
  next
    case (ImportSpecifier l i)
    with keep push show ?thesis by simp
  next
    case (ImportNamespaceSpecifier l)
    with keep push show ?thesis by simp
  qed
qed

lemma mergeImports_st_at:
  assumes "mergeImports_st st a b = (st', c)" "valid_ref st a" "valid_ref st b"
  shows "declaration_at st' c = mergeImports (declaration_at st a) (declaration_at st b)"
    and "valid_ref st' c"
proof -
  obtain st1 where cl: "cloneDeep_declaration st a = (st1, c)"
    and st': "st' = mergeImports_st_loop st1 a (obj_specifiers (declarations st1 ! b)) c"
    using assms(1) by (auto simp: mergeImports_st_def split: prod.splits)
  note c = cloneDeep_declaration_at [OF cl assms(2)]
  note a1 = extends_declaration_at [OF c(2) assms(2)]
  note b1 = extends_declaration_at [OF c(2) assms(3)]
  from assms(2) c(3) have ne: "a \<noteq> c" by (simp add: valid_ref_def)
  from c(4) have lt: "c < length (declarations st1)" by (simp add: valid_ref_def)
  from b1(2) have ss: "list_all (\<lambda>s. s < length (specifier_objects st1))
                         (obj_specifiers (declarations st1 ! b))"
    by (simp add: valid_ref_def)
  have sb: "map ((!) (specifier_objects st1)) (obj_specifiers (declarations st1 ! b))
            = specifiers (declaration_at st1 b)"
    by (simp add: declaration_at_def Let_def)
  from mergeImports_st_loop_at [OF ne lt c(4) ss] st' sb c(1) a1(1) b1(1)
  show "declaration_at st' c = mergeImports (declaration_at st a) (declaration_at st b)"
    and "valid_ref st' c"
    by (simp_all add: mergeImports_def)
qed

lemma spec_at_extends:
  assumes "extends st st'" "valid_ref st (spec_node x)"
  shows "spec_at st' x = spec_at st x"
  using extends_declaration_at(1) [OF assms] by (simp add: spec_at_def)

lemma merge_pass_st_at:
  assumes "merge_pass_st st xs = (st', out)" "\<forall>x \<in> set xs. valid_ref st (spec_node x)"
  shows "map (declaration_at st') out = merge_pass (map (spec_at st) xs)"
  using assms
proof (induction st xs arbitrary: st' out rule: merge_pass_st.induct)
  case (1 st)
  then show ?case by simp
next
  case (2 st a)
  then show ?case by (auto simp: spec_at_def)
next
  case (3 st a b rest)
  from "3.prems"(2) have va: "valid_ref st (spec_node a)" and vb: "valid_ref st (spec_node b)"
    and vr: "\<forall>x \<in> set rest. valid_ref st (spec_node x)"
    by simp_all
  show ?case
  proof (cases "compareImports a b = 0")
    case True
    obtain st1 c where m: "mergeImports_st st (spec_node a) (spec_node b) = (st1, c)"
      by (cases "mergeImports_st st (spec_node a) (spec_node b)")
    obtain st2 out2 where r: "merge_pass_st st1 rest = (st2, out2)"
      by (cases "merge_pass_st st1 rest")
    from "3.prems"(1) True m r have eq: "st' = st2" "out = c # out2" by simp_all
    note e1 = mergeImports_st_props(1) [OF m]
    note v1 = mergeImports_st_at [OF m va vb]
    from merge_pass_st_props [OF r] have e2: "extends st1 st2" by simp
    from vr e1 have vr1: "\<forall>x \<in> set rest. valid_ref st1 (spec_node x)"
      by (auto intro: extends_declaration_at(2))
    have "map (spec_at st1) rest = map (spec_at st) rest"
      by (rule map_cong [OF refl]) (use vr e1 in \<open>auto intro: spec_at_extends\<close>)
    with "3.IH"(1) [OF True m [symmetric] r vr1]
    have tl: "map (declaration_at st2) out2 = merge_pass (map (spec_at st) rest)" by simp
    from extends_declaration_at(1) [OF e2 v1(2)] v1(1)
    have hd: "declaration_at st2 c
              = mergeImports (spec_node (spec_at st a)) (spec_node (spec_at st b))"
      by (simp add: spec_at_def)
    from True hd tl eq show ?thesis by simp
  next
    case False
    obtain st1 out1 where r: "merge_pass_st st (b # rest) = (st1, out1)"
      by (cases "merge_pass_st st (b # rest)")
    from "3.prems"(1) False r have eq: "st' = st1" "out = spec_node a # out1" by simp_all
    from merge_pass_st_props [OF r] have e: "extends st st1" by simp
    from "3.prems"(2) have "\<forall>x \<in> set (b # rest). valid_ref st (spec_node x)" by simp
    from "3.IH"(2) [OF False r this]
    have tl: "map (declaration_at st1) out1 = merge_pass (map (spec_at st) (b # rest))" .
    from extends_declaration_at(1) [OF e va]
    have hd: "declaration_at st1 (spec_node a) = spec_node (spec_at st a)"
      by (simp add: spec_at_def)
    from False hd tl eq show ?thesis by simp
  qed
qed

lemma filter_body_at:
  "filter_body (file_at st b) i fi fp
     = (case filter_body_st st b i fi fp of (kept, x, y) \<Rightarrow> (file_at st kept, x, y))"
  by (induction st b i fi fp rule: filter_body_st.induct)
     (simp_all add: file_at_def Let_def split: prod.splits)

lemma filter_body_st_kept:
  assumes "s \<in> set (fst (filter_body_st st b i fi fp))"
  shows "s \<in> set b
         \<and> (case s of ImportRef a \<Rightarrow> tryParsePlasmicImportSpec (declaration_at st a) = None
             | StmtNode n \<Rightarrow> True)"
  using assms
proof (induction st b i fi fp rule: filter_body_st.induct)
  case (3 st d rest i firstImport firstPlasmicImport)
  show ?case
  proof (cases "tryParsePlasmicImportSpec (declaration_at st d) = None")
    case True
    with "3.prems" "3.IH"(2) show ?thesis
      by (auto simp: Let_def split: prod.splits)
  next
    case False
    with "3.prems" "3.IH"(1) show ?thesis
      by (simp add: Let_def)
  qed
qed (auto split: prod.splits)

text \<open>On a store whose references are valid, the body of the merged file after the import
  merger stands for the file that the import merger on values gives.\<close>

lemma mergePlasmicImports_st_at:
  assumes run: "mergePlasmicImports_st st mergedFile parsedNew parsedEdited = (st', body')"
    and vm: "valid_file st mergedFile"
    and vn: "valid_file st parsedNew"
    and ve: "valid_file st parsedEdited"
  shows "file_at st' body'
         = mergePlasmicImports (file_at st mergedFile) (file_at st parsedNew)
             (file_at st parsedEdited)"
proof -
  let ?refs = "extractPlasmicImports_st st parsedEdited @ extractPlasmicImports_st st parsedNew"
  let ?all = "sort_imports ?refs"
  let ?st1 = "foldl (\<lambda>s d. set_leadingComments_null s (spec_node d)) st ?all"
  obtain body fi fp where f: "filter_body_st st mergedFile 0 (-1) (-1) = (body, fi, fp)"
    by (cases "filter_body_st st mergedFile 0 (-1) (-1)")
  obtain st2 out where m: "merge_pass_st ?st1 ?all = (st2, out)"
    by (cases "merge_pass_st ?st1 ?all")
  let ?k = "nat (if fp > -1 then fp else if fi > -1 then fi else 0)"
  from run f m have eq: "st' = st2" "body' = take ?k body @ map ImportRef out @ drop ?k body"
    by (simp_all add: mergePlasmicImports_st_def Let_def)
  have valid: "valid_ref st (spec_node x)" if "x \<in> set ?all" for x
    using that vn ve by (auto simp: set_sort_imports intro: extractPlasmicImports_st_valid)
  have managed: "tryParsePlasmicImportSpec (declaration_at st (spec_node x)) \<noteq> None"
    if "x \<in> set ?all" for x
  proof -
    from that have "x \<in> set (extractPlasmicImports_st st parsedEdited)
                    \<or> x \<in> set (extractPlasmicImports_st st parsedNew)"
      by (simp add: set_sort_imports)
    then show ?thesis
    proof
      assume "x \<in> set (extractPlasmicImports_st st parsedEdited)"
      then show ?thesis by (rule extractPlasmicImports_st_managed)
    next
      assume "x \<in> set (extractPlasmicImports_st st parsedNew)"
      then show ?thesis by (rule extractPlasmicImports_st_managed)
    qed
  qed
  have valid1: "\<forall>x \<in> set ?all. valid_ref ?st1 (spec_node x)"
    by (auto intro: null_declaration_at(2) valid)
  have e: "extends ?st1 st2"
    using merge_pass_st_props [OF m] by simp
  have s1: "map (spec_at ?st1) ?all = map dropLeadingComments (map (spec_at st) ?all)"
  proof -
    have "spec_at ?st1 x = dropLeadingComments (spec_at st x)" if "x \<in> set ?all" for x
      using null_declaration_at(1) [OF valid [OF that], of ?all] that
      by (simp add: spec_at_def dropLeadingComments_def)
    then show ?thesis by simp
  qed
  have s2: "map (spec_at st) ?all
            = sort_imports (extractPlasmicImports (file_at st parsedEdited)
                            @ extractPlasmicImports (file_at st parsedNew))"
    by (simp add: sort_imports_at [symmetric] extractPlasmicImports_at)
  from merge_pass_st_at [OF m valid1] s1 s2
  have out: "map (declaration_at st2) out
             = mergedImports (file_at st parsedNew) (file_at st parsedEdited)"
    by (simp add: mergedImports_def)
  have kept: "file_at st2 body = file_at st body"
  proof -
    have "statement_at st2 s = statement_at st s" if s: "s \<in> set body" for s
    proof (cases s)
      case (ImportRef a)
      from filter_body_st_kept [of s st mergedFile 0 "-1" "-1"] f s ImportRef
      have im: "ImportRef a \<in> set mergedFile"
        and np: "tryParsePlasmicImportSpec (declaration_at st a) = None"
        by simp_all
      from im vm have va: "valid_ref st a"
        by (auto simp: valid_file_def list_all_iff)
      have "a \<notin> spec_node ` set ?all"
      proof
        assume "a \<in> spec_node ` set ?all"
        then obtain x where x: "x \<in> set ?all" "a = spec_node x" by blast
        from managed [OF x(1)] np x(2) show False by simp
      qed
      with null_declaration_at [OF va, of ?all]
      have a1: "declaration_at ?st1 a = declaration_at st a" and v1: "valid_ref ?st1 a"
        by simp_all
      from extends_declaration_at(1) [OF e v1] a1 ImportRef show ?thesis by simp
    next
      case (StmtNode n)
      then show ?thesis by simp
    qed
    then show ?thesis by (simp add: file_at_def)
  qed
  have fb: "filter_body (file_at st mergedFile) 0 (-1) (-1) = (file_at st body, fi, fp)"
    using f by (simp add: filter_body_at)
  have "file_at st2 (take ?k body @ map ImportRef out @ drop ?k body)
        = take ?k (file_at st2 body) @ map ImportStmt (map (declaration_at st2) out)
          @ drop ?k (file_at st2 body)"
    by (simp add: file_at_def take_map drop_map)
  with eq out kept fb show ?thesis
    by (simp add: mergePlasmicImports_def Let_def)
qed

end
